theory Spec2Isabelle
  imports Main
begin

section \<open>Python values used by the two scripts\<close>

text \<open>
  A Python \<open>str\<close> is modelled as a \<open>string\<close>: one \<open>char\<close> per code point, for
  the code points below 256. Exceptions are values of \<open>error\<close>; a function that can
  raise returns \<open>error + 'a\<close>.
\<close>

datatype error = ValueError | IndexError | OverflowError

subsection \<open>Character classes and string methods\<close>

definition isspace :: "char \<Rightarrow> bool" where
  \<comment> \<open>\<open>str.isspace\<close>, also the regex class \<open>\s\<close>: tab, LF, VT, FF, CR, FS, GS, RS, US,
      space, NEL and the no-break space.\<close>
  "isspace c = (c \<in> set [CHR 0x09, CHR 0x0A, CHR 0x0B, CHR 0x0C, CHR 0x0D,
                          CHR 0x1C, CHR 0x1D, CHR 0x1E, CHR 0x1F, CHR 0x20,
                          CHR 0x85, CHR 0xA0])"

definition isdigit :: "char \<Rightarrow> bool" where
  \<comment> \<open>the regex class \<open>\d\<close>\<close>
  "isdigit c = (c \<in> set ''0123456789'')"

definition upper_chars :: string where
  "upper_chars = ''ABCDEFGHIJKLMNOPQRSTUVWXYZ'' @
     [CHR 0xC0, CHR 0xC1, CHR 0xC2, CHR 0xC3, CHR 0xC4, CHR 0xC5, CHR 0xC6, CHR 0xC7,
      CHR 0xC8, CHR 0xC9, CHR 0xCA, CHR 0xCB, CHR 0xCC, CHR 0xCD, CHR 0xCE, CHR 0xCF,
      CHR 0xD0, CHR 0xD1, CHR 0xD2, CHR 0xD3, CHR 0xD4, CHR 0xD5, CHR 0xD6,
      CHR 0xD8, CHR 0xD9, CHR 0xDA, CHR 0xDB, CHR 0xDC, CHR 0xDD, CHR 0xDE]"

definition lower_chars :: string where
  "lower_chars = ''abcdefghijklmnopqrstuvwxyz'' @
     [CHR 0xE0, CHR 0xE1, CHR 0xE2, CHR 0xE3, CHR 0xE4, CHR 0xE5, CHR 0xE6, CHR 0xE7,
      CHR 0xE8, CHR 0xE9, CHR 0xEA, CHR 0xEB, CHR 0xEC, CHR 0xED, CHR 0xEE, CHR 0xEF,
      CHR 0xF0, CHR 0xF1, CHR 0xF2, CHR 0xF3, CHR 0xF4, CHR 0xF5, CHR 0xF6,
      CHR 0xF8, CHR 0xF9, CHR 0xFA, CHR 0xFB, CHR 0xFC, CHR 0xFD, CHR 0xFE]"

definition lower_char :: "char \<Rightarrow> char" where
  "lower_char c = (case map_of (zip upper_chars lower_chars) c of Some l \<Rightarrow> l | None \<Rightarrow> c)"

definition lower :: "string \<Rightarrow> string" where
  \<comment> \<open>\<open>str.lower()\<close>\<close>
  "lower s = map lower_char s"

definition strip :: "string \<Rightarrow> string" where
  \<comment> \<open>\<open>str.strip()\<close>: leading and trailing whitespace removed\<close>
  "strip s = rev (dropWhile isspace (rev (dropWhile isspace s)))"

fun startswith :: "string \<Rightarrow> string \<Rightarrow> bool" where
  "startswith s [] = True"
| "startswith [] (k # ks) = False"
| "startswith (c # cs) (k # ks) = (c = k \<and> startswith cs ks)"

fun contains :: "string \<Rightarrow> string \<Rightarrow> bool" where
  \<comment> \<open>\<open>k in s\<close> on strings\<close>
  "contains [] k = (k = [])"
| "contains (c # cs) k = (startswith (c # cs) k \<or> contains cs k)"

fun split_sep :: "char \<Rightarrow> string \<Rightarrow> string list" where
  \<comment> \<open>\<open>s.split(sep)\<close> for a one-character separator\<close>
  "split_sep sep [] = [[]]"
| "split_sep sep (c # cs) =
     (if c = sep then [] # split_sep sep cs
      else (case split_sep sep cs of [] \<Rightarrow> [[c]] | w # ws \<Rightarrow> (c # w) # ws))"

definition digit_val :: "char \<Rightarrow> int" where
  "digit_val c = int (of_char c) - 48"

definition int_of_digits :: "string \<Rightarrow> int" where
  "int_of_digits s = foldl (\<lambda>a c. 10 * a + digit_val c) 0 s"

definition py_int :: "string \<Rightarrow> error + int" where
  \<comment> \<open>\<open>int(s)\<close> on the strings the scripts pass to it, which are regex digit groups\<close>
  "py_int s = (if s \<noteq> [] \<and> list_all isdigit s then Inr (int_of_digits s)
               else Inl ValueError)"

definition index :: "'a list \<Rightarrow> nat \<Rightarrow> error + 'a" where
  \<comment> \<open>\<open>xs[i]\<close> for a literal index \<open>i \<ge> 0\<close>\<close>
  "index xs i = (if i < length xs then Inr (xs ! i) else Inl IndexError)"

subsection \<open>Regular expressions\<close>

text \<open>
  The three patterns of \<open>check_all_renewals.py\<close> are sequences of single-character
  classes with a repetition range, some of them capturing, and the end anchor. The
  matcher is \<open>re\<close>'s: each repetition is greedy and gives characters back one at a
  time when the rest of the pattern fails.
\<close>

datatype cclass =
    Digit           \<comment> \<open>\<open>\d\<close>\<close>
  | Space           \<comment> \<open>\<open>\s\<close>\<close>
  | Lit char        \<comment> \<open>a literal character\<close>
  | LitI char       \<comment> \<open>a literal character under \<open>re.IGNORECASE\<close>\<close>

datatype item =
    Rep cclass nat "nat option" bool
      \<comment> \<open>class, least and greatest count (\<open>None\<close>: unbounded), capturing or not\<close>
  | Eos
      \<comment> \<open>\<open>$\<close>: the end of the string, or just before a newline that ends it\<close>

fun cmatch :: "cclass \<Rightarrow> char \<Rightarrow> bool" where
  "cmatch Digit c = isdigit c"
| "cmatch Space c = isspace c"
| "cmatch (Lit k) c = (c = k)"
| "cmatch (LitI k) c = (lower_char c = lower_char k)"

function match_here :: "item list \<Rightarrow> string \<Rightarrow> (string list \<times> string) option"
  and give_back :: "nat \<Rightarrow> bool \<Rightarrow> item list \<Rightarrow> nat \<Rightarrow> string \<Rightarrow> (string list \<times> string) option"
where
  \<comment> \<open>\<open>match_here\<close>: the groups captured and the text left over, for a match that starts
      here; \<open>give_back\<close>: the repetition takes \<open>k\<close> characters, then one fewer while the
      rest of the pattern fails\<close>
  "match_here [] s = Some ([], s)"
| "match_here (Eos # its) s =
     (if s = [] \<or> s = [CHR 0x0A] then match_here its s else None)"
| "match_here (Rep cls lo hi cap # its) s =
     (let n = length (takeWhile (cmatch cls) s);
          kmax = (case hi of None \<Rightarrow> n | Some h \<Rightarrow> min h n)
      in give_back lo cap its kmax s)"
| "give_back lo cap its k s =
     (if k < lo then None
      else (case match_here its (drop k s) of
              Some (gs, r) \<Rightarrow> Some (if cap then take k s # gs else gs, r)
            | None \<Rightarrow> (if k = 0 then None else give_back lo cap its (k - 1) s)))"
  by pat_completeness auto
termination
  by (relation "measures [\<lambda>x. case x of Inl (p, s) \<Rightarrow> length p | Inr (lo, cap, its, k, s) \<Rightarrow> length its,
                          \<lambda>x. case x of Inl (p, s) \<Rightarrow> 0 | Inr (lo, cap, its, k, s) \<Rightarrow> Suc k]") auto

declare give_back.simps [simp del]

definition re_match :: "item list \<Rightarrow> string \<Rightarrow> string list option" where
  \<comment> \<open>\<open>re.match(p, s)\<close>, then \<open>.groups()\<close>\<close>
  "re_match p s = map_option fst (match_here p s)"

fun re_search :: "item list \<Rightarrow> string \<Rightarrow> string list option" where
  \<comment> \<open>\<open>re.search(p, s)\<close>, then \<open>.groups()\<close>: the leftmost start that matches\<close>
  "re_search p [] = map_option fst (match_here p [])"
| "re_search p (c # cs) =
     (case match_here p (c # cs) of
        Some (gs, r) \<Rightarrow> Some gs
      | None \<Rightarrow> re_search p cs)"

fun findall_from :: "item list \<Rightarrow> nat \<Rightarrow> string \<Rightarrow> string list list" where
  \<comment> \<open>the scan of \<open>re.findall\<close>; \<open>skip\<close> characters still belong to the last match\<close>
  "findall_from p skip [] =
     (if skip = 0 then (case match_here p [] of Some (gs, r) \<Rightarrow> [gs] | None \<Rightarrow> []) else [])"
| "findall_from p skip (c # cs) =
     (if 0 < skip then findall_from p (skip - 1) cs
      else (case match_here p (c # cs) of
              Some (gs, r) \<Rightarrow> gs # findall_from p (length (c # cs) - length r - 1) cs
            | None \<Rightarrow> findall_from p 0 cs))"

definition re_findall :: "item list \<Rightarrow> string \<Rightarrow> string list list" where
  \<comment> \<open>\<open>re.findall(p, s)\<close>: the groups of the non-overlapping matches, left to right\<close>
  "re_findall p s = findall_from p 0 s"

subsection \<open>\<open>datetime\<close> and \<open>timedelta\<close>\<close>

text \<open>
  A naive \<open>datetime\<close> is a day of the proleptic Gregorian calendar, numbered as
  \<open>date.toordinal()\<close> numbers it (1 is 1 January of year 1), and the microsecond of that
  day. The constructor checks its arguments and raises \<open>ValueError\<close>; adding a
  \<open>timedelta\<close> raises \<open>OverflowError\<close> outside the years 1 to 9999.
\<close>

record datetime =
  ordinal :: int
  microsecond :: int

definition MINYEAR :: int where "MINYEAR = 1"
definition MAXYEAR :: int where "MAXYEAR = 9999"
definition MAXORDINAL :: int where "MAXORDINAL = 3652059"

definition is_leap :: "int \<Rightarrow> bool" where
  "is_leap y = (y mod 4 = 0 \<and> (y mod 100 \<noteq> 0 \<or> y mod 400 = 0))"

definition days_before_year :: "int \<Rightarrow> int" where
  "days_before_year year =
     (let y = year - 1 in y * 365 + y div 4 - y div 100 + y div 400)"

definition DAYS_IN_MONTH :: "int list" where
  "DAYS_IN_MONTH = [31, 28, 31, 30, 31, 30, 31, 31, 30, 31, 30, 31]"

definition days_in_month :: "int \<Rightarrow> int \<Rightarrow> int" where
  "days_in_month year month =
     (if month = 2 \<and> is_leap year then 29 else DAYS_IN_MONTH ! nat (month - 1))"

definition days_before_month :: "int \<Rightarrow> int \<Rightarrow> int" where
  "days_before_month year month =
     sum_list (take (nat (month - 1)) DAYS_IN_MONTH)
       + (if 2 < month \<and> is_leap year then 1 else 0)"

definition ymd2ord :: "int \<Rightarrow> int \<Rightarrow> int \<Rightarrow> int" where
  "ymd2ord year month day =
     days_before_year year + days_before_month year month + day"

definition valid_ymd :: "int \<Rightarrow> int \<Rightarrow> int \<Rightarrow> bool" where
  "valid_ymd year month day =
     (MINYEAR \<le> year \<and> year \<le> MAXYEAR \<and> 1 \<le> month \<and> month \<le> 12 \<and>
      1 \<le> day \<and> day \<le> days_in_month year month)"

definition datetime_new :: "int \<Rightarrow> int \<Rightarrow> int \<Rightarrow> error + datetime" where
  \<comment> \<open>\<open>datetime(year, month, day)\<close>: midnight of that day\<close>
  "datetime_new year month day =
     (if \<not> (MINYEAR \<le> year \<and> year \<le> MAXYEAR) then Inl ValueError
      else if \<not> (1 \<le> month \<and> month \<le> 12) then Inl ValueError
      else if \<not> (1 \<le> day \<and> day \<le> days_in_month year month) then Inl ValueError
      else Inr \<lparr>ordinal = ymd2ord year month day, microsecond = 0\<rparr>)"

definition add_days :: "datetime \<Rightarrow> int \<Rightarrow> error + datetime" where
  \<comment> \<open>\<open>dt + timedelta(days=n)\<close>\<close>
  "add_days dt n =
     (let d = ordinal dt + n
      in if 0 < d \<and> d \<le> MAXORDINAL then Inr (dt\<lparr>ordinal := d\<rparr>)
         else Inl OverflowError)"

definition dt_le :: "datetime \<Rightarrow> datetime \<Rightarrow> bool" where
  \<comment> \<open>\<open>a <= b\<close>\<close>
  "dt_le a b =
     (ordinal a < ordinal b \<or> (ordinal a = ordinal b \<and> microsecond a \<le> microsecond b))"

definition dt_lt :: "datetime \<Rightarrow> datetime \<Rightarrow> bool" where
  \<comment> \<open>\<open>a < b\<close>\<close>
  "dt_lt a b =
     (ordinal a < ordinal b \<or> (ordinal a = ordinal b \<and> microsecond a < microsecond b))"

definition US_PER_DAY :: int where
  "US_PER_DAY = 86400000000"

definition delta_days :: "datetime \<Rightarrow> datetime \<Rightarrow> int" where
  \<comment> \<open>\<open>(a - b).days\<close>: a \<open>timedelta\<close> keeps its seconds and microseconds
      non-negative, so the days are rounded down\<close>
  "delta_days a b =
     ((ordinal a * US_PER_DAY + microsecond a) - (ordinal b * US_PER_DAY + microsecond b))
        div US_PER_DAY"

fun py_max :: "datetime list \<Rightarrow> error + datetime" where
  \<comment> \<open>\<open>max(xs)\<close>: the first of the greatest items; \<open>ValueError\<close> on an empty list\<close>
  "py_max [] = Inl ValueError"
| "py_max (x # xs) = Inr (foldl (\<lambda>m y. if dt_lt m y then y else m) x xs)"

section \<open>The renewal checker (\<open>check_all_renewals.py\<close>)\<close>

subsection \<open>Date extraction\<close>

datatype cell =
    NaN            \<comment> \<open>an empty spreadsheet cell: \<open>pd.isna\<close> holds\<close>
  | Text string    \<comment> \<open>a cell holding a string\<close>

definition from_to_pattern :: "item list" where
  \<comment> \<open>\<open>r'from\s+(\d{1,2})/(\d{1,2})/(\d{4})\s+to'\<close> with \<open>re.IGNORECASE\<close>\<close>
  "from_to_pattern =
     [Rep (LitI CHR ''f'') 1 (Some 1) False, Rep (LitI CHR ''r'') 1 (Some 1) False,
      Rep (LitI CHR ''o'') 1 (Some 1) False, Rep (LitI CHR ''m'') 1 (Some 1) False,
      Rep Space 1 None False,
      Rep Digit 1 (Some 2) True, Rep (Lit CHR ''/'') 1 (Some 1) False,
      Rep Digit 1 (Some 2) True, Rep (Lit CHR ''/'') 1 (Some 1) False,
      Rep Digit 4 (Some 4) True,
      Rep Space 1 None False,
      Rep (LitI CHR ''t'') 1 (Some 1) False, Rep (LitI CHR ''o'') 1 (Some 1) False]"

definition date_pattern_alt :: "item list" where
  \<comment> \<open>\<open>r'(\d{1,2})/(\d{1,2})/(\d{4})'\<close>\<close>
  "date_pattern_alt =
     [Rep Digit 1 (Some 2) True, Rep (Lit CHR ''/'') 1 (Some 1) False,
      Rep Digit 1 (Some 2) True, Rep (Lit CHR ''/'') 1 (Some 1) False,
      Rep Digit 4 (Some 4) True]"

definition vetting_pattern :: "item list" where
  \<comment> \<open>\<open>r'^(\d{1,2})/(\d{1,2})/(\d{4})$'\<close>; \<open>re.match\<close> starts at the beginning of
      the string, where \<open>^\<close> holds\<close>
  "vetting_pattern =
     [Rep Digit 1 (Some 2) True, Rep (Lit CHR ''/'') 1 (Some 1) False,
      Rep Digit 1 (Some 2) True, Rep (Lit CHR ''/'') 1 (Some 1) False,
      Rep Digit 4 (Some 4) True, Eos]"

definition date_of_groups :: "string list \<Rightarrow> error + datetime" where
  \<comment> \<open>\<open>day, month, year = groups; datetime(int(year), int(month), int(day))\<close>\<close>
  "date_of_groups gs =
     (case gs of
        [day, month, year] \<Rightarrow>
          (case py_int year of Inl e \<Rightarrow> Inl e | Inr y \<Rightarrow>
            (case py_int month of Inl e \<Rightarrow> Inl e | Inr m \<Rightarrow>
              (case py_int day of Inl e \<Rightarrow> Inl e | Inr d \<Rightarrow>
                 datetime_new y m d)))
      | _ \<Rightarrow> Inl ValueError)"

definition is_safeguarding :: "string \<Rightarrow> bool" where
  "is_safeguarding text =
     list_ex (\<lambda>keyword. contains (lower text) (lower keyword))
       [''safeguarding'', ''safe guarding'']"

definition is_being_scouter :: "string \<Rightarrow> bool" where
  "is_being_scouter text = contains text ''Being A Scouter''"

definition extract_safeguarding_date :: "cell \<Rightarrow> error + datetime option" where
  "extract_safeguarding_date c =
     (case c of
        NaN \<Rightarrow> Inr None
      | Text text \<Rightarrow>
          if \<not> (is_safeguarding text \<or> is_being_scouter text) then Inr None
          else (case re_search from_to_pattern text of
                  Some gs \<Rightarrow> map_sum id Some (date_of_groups gs)
                | None \<Rightarrow>
                    (let matches = re_findall date_pattern_alt text
                     in if matches \<noteq> [] then map_sum id Some (date_of_groups (last matches))
                        else Inr None)))"

definition parse_vetting_date :: "cell \<Rightarrow> error + datetime option" where
  "parse_vetting_date c =
     (case c of
        NaN \<Rightarrow> Inr None
      | Text date_str \<Rightarrow>
          (case re_match vetting_pattern (strip date_str) of
             Some gs \<Rightarrow> map_sum id Some (date_of_groups gs)
           | None \<Rightarrow> Inr None))"

subsection \<open>The two reports and the classification of their rows\<close>

text \<open>
  A row of a report: the cells the script reads by their column label, and the whole row
  by position, as \<open>row.iloc\<close> reads it. The vetting report is read by label only, the
  training report by label and by position.
\<close>

record row =
  First_Name :: string
  Surname :: string
  Email_Address :: string
  Latest_Vetting_Completion_Date :: cell
  iloc :: "cell list"

text \<open>
  An entry of \<open>all_renewals\<close>. The script stores the two dates as the text
  \<open>strftime('%d/%m/%Y')\<close> prints; the model keeps the dates themselves.
\<close>

record renewal =
  Last_Completed :: datetime
  Expiry_Date :: datetime
  Days_Until :: int

record person =
  Email :: string
  Safeguarding :: "renewal option"
  Vetting :: "renewal option"

datatype requirement = Safeguarding_Type | Vetting_Type

record expired_item =
  x_Name :: string
  x_Email :: string
  x_Type :: requirement
  x_Last_Completed :: datetime
  x_Expiry_Date :: datetime
  Days_Expired :: int

definition three_months_from_now :: "datetime \<Rightarrow> error + datetime" where
  \<comment> \<open>\<open>today + timedelta(days=90)\<close>\<close>
  "three_months_from_now today = add_days today 90"

definition expiry_date :: "datetime \<Rightarrow> error + datetime" where
  \<comment> \<open>\<open>latest_date + timedelta(days=365 * 3)\<close>, \<open>vetting_date + timedelta(days=365 * 3)\<close>\<close>
  "expiry_date completed = add_days completed (365 * 3)"

definition name_of :: "row \<Rightarrow> string" where
  \<comment> \<open>\<open>f"{row['First Name']} {row['Surname']}"\<close>\<close>
  "name_of r = First_Name r @ '' '' @ Surname r"

fun collect_dates :: "cell list \<Rightarrow> nat list \<Rightarrow> datetime list \<Rightarrow> error + datetime list" where
  \<comment> \<open>the loop over \<open>col_idx\<close>, appending each date found to \<open>all_safeguarding_dates\<close>\<close>
  "collect_dates cs [] acc = Inr acc"
| "collect_dates cs (col_idx # rest) acc =
     (case index cs col_idx of
        Inl e \<Rightarrow> Inl e
      | Inr course_text \<Rightarrow>
          (case extract_safeguarding_date course_text of
             Inl e \<Rightarrow> Inl e
           | Inr None \<Rightarrow> collect_dates cs rest acc
           | Inr (Some d) \<Rightarrow> collect_dates cs rest (acc @ [d])))"

definition all_safeguarding_dates :: "row \<Rightarrow> error + datetime list" where
  \<comment> \<open>\<open>for col_idx in range(5, 26)\<close>\<close>
  "all_safeguarding_dates r = collect_dates (iloc r) [5..<26] []"

definition in_window :: "datetime \<Rightarrow> datetime \<Rightarrow> datetime \<Rightarrow> bool" where
  \<comment> \<open>\<open>today <= expiry_date <= three_months_from_now\<close>\<close>
  "in_window today t90 expiry = (dt_le today expiry \<and> dt_le expiry t90)"

definition renewal_of :: "datetime \<Rightarrow> datetime \<Rightarrow> datetime \<Rightarrow> error + renewal option" where
  \<comment> \<open>from a completion date: the expiry and, inside the window, the entry to store\<close>
  "renewal_of today t90 completed =
     (case expiry_date completed of
        Inl e \<Rightarrow> Inl e
      | Inr expiry \<Rightarrow>
          if in_window today t90 expiry
          then Inr (Some \<lparr>Last_Completed = completed, Expiry_Date = expiry,
                           Days_Until = delta_days expiry today\<rparr>)
          else Inr None)"

definition safeguarding_renewal :: "datetime \<Rightarrow> datetime \<Rightarrow> row \<Rightarrow> error + renewal option" where
  \<comment> \<open>the body of the first loop over the training report\<close>
  "safeguarding_renewal today t90 r =
     (case all_safeguarding_dates r of
        Inl e \<Rightarrow> Inl e
      | Inr ds \<Rightarrow>
          if ds \<noteq> [] then
            (case py_max ds of
               Inl e \<Rightarrow> Inl e
             | Inr latest_date \<Rightarrow> renewal_of today t90 latest_date)
          else Inr None)"

definition vetting_renewal :: "datetime \<Rightarrow> datetime \<Rightarrow> row \<Rightarrow> error + renewal option" where
  \<comment> \<open>the body of the first loop over the vetting report\<close>
  "vetting_renewal today t90 r =
     (case parse_vetting_date (Latest_Vetting_Completion_Date r) of
        Inl e \<Rightarrow> Inl e
      | Inr None \<Rightarrow> Inr None
      | Inr (Some vetting_date) \<Rightarrow> renewal_of today t90 vetting_date)"

definition set_safeguarding :: "(string \<rightharpoonup> person) \<Rightarrow> row \<Rightarrow> renewal \<Rightarrow> (string \<rightharpoonup> person)" where
  "set_safeguarding all_renewals r info =
     (case all_renewals (name_of r) of
        None \<Rightarrow> all_renewals(name_of r \<mapsto>
                   \<lparr>Email = Email_Address r, Safeguarding = Some info, Vetting = None\<rparr>)
      | Some p \<Rightarrow> all_renewals(name_of r \<mapsto> p\<lparr>Safeguarding := Some info\<rparr>))"

definition set_vetting :: "(string \<rightharpoonup> person) \<Rightarrow> row \<Rightarrow> renewal \<Rightarrow> (string \<rightharpoonup> person)" where
  "set_vetting all_renewals r info =
     (case all_renewals (name_of r) of
        None \<Rightarrow> all_renewals(name_of r \<mapsto>
                   \<lparr>Email = Email_Address r, Safeguarding = None, Vetting = Some info\<rparr>)
      | Some p \<Rightarrow> all_renewals(name_of r \<mapsto> p\<lparr>Vetting := Some info\<rparr>))"

fun renewals_loop ::
  "(row \<Rightarrow> error + renewal option) \<Rightarrow> ((string \<rightharpoonup> person) \<Rightarrow> row \<Rightarrow> renewal \<Rightarrow> (string \<rightharpoonup> person))
     \<Rightarrow> row list \<Rightarrow> (string \<rightharpoonup> person) \<Rightarrow> error + (string \<rightharpoonup> person)" where
  \<comment> \<open>\<open>for index, row in df.iterrows()\<close>, with the loop's body and its store\<close>
  "renewals_loop body store [] all_renewals = Inr all_renewals"
| "renewals_loop body store (r # rs) all_renewals =
     (case body r of
        Inl e \<Rightarrow> Inl e
      | Inr None \<Rightarrow> renewals_loop body store rs all_renewals
      | Inr (Some info) \<Rightarrow> renewals_loop body store rs (store all_renewals r info))"

definition expired_of :: "datetime \<Rightarrow> requirement \<Rightarrow> row \<Rightarrow> datetime \<Rightarrow> error + expired_item option" where
  \<comment> \<open>from a completion date: the expiry and, when it is past, the item to report\<close>
  "expired_of today ty r completed =
     (case expiry_date completed of
        Inl e \<Rightarrow> Inl e
      | Inr expiry \<Rightarrow>
          if dt_lt expiry today
          then Inr (Some \<lparr>x_Name = name_of r, x_Email = Email_Address r, x_Type = ty,
                           x_Last_Completed = completed, x_Expiry_Date = expiry,
                           Days_Expired = delta_days today expiry\<rparr>)
          else Inr None)"

definition safeguarding_expired :: "datetime \<Rightarrow> row \<Rightarrow> error + expired_item option" where
  \<comment> \<open>the body of the second loop over the training report\<close>
  "safeguarding_expired today r =
     (case all_safeguarding_dates r of
        Inl e \<Rightarrow> Inl e
      | Inr ds \<Rightarrow>
          if ds \<noteq> [] then
            (case py_max ds of
               Inl e \<Rightarrow> Inl e
             | Inr latest_date \<Rightarrow> expired_of today Safeguarding_Type r latest_date)
          else Inr None)"

definition vetting_expired :: "datetime \<Rightarrow> row \<Rightarrow> error + expired_item option" where
  \<comment> \<open>the body of the second loop over the vetting report\<close>
  "vetting_expired today r =
     (case parse_vetting_date (Latest_Vetting_Completion_Date r) of
        Inl e \<Rightarrow> Inl e
      | Inr None \<Rightarrow> Inr None
      | Inr (Some vetting_date) \<Rightarrow> expired_of today Vetting_Type r vetting_date)"

fun expired_loop ::
  "(row \<Rightarrow> error + expired_item option) \<Rightarrow> row list \<Rightarrow> expired_item list
     \<Rightarrow> error + expired_item list" where
  "expired_loop body [] expired_items = Inr expired_items"
| "expired_loop body (r # rs) expired_items =
     (case body r of
        Inl e \<Rightarrow> Inl e
      | Inr None \<Rightarrow> expired_loop body rs expired_items
      | Inr (Some item) \<Rightarrow> expired_loop body rs (expired_items @ [item]))"

definition check_all_renewals ::
  "datetime \<Rightarrow> row list \<Rightarrow> row list \<Rightarrow> error + (string \<rightharpoonup> person) \<times> expired_item list" where
  \<comment> \<open>the script from \<open>today = datetime.now()\<close> on, without the printing: the two
      renewal loops, then the two expired loops\<close>
  "check_all_renewals today df_training df_vetting =
     (case three_months_from_now today of
        Inl e \<Rightarrow> Inl e
      | Inr t90 \<Rightarrow>
     (case renewals_loop (safeguarding_renewal today t90) set_safeguarding df_training Map.empty of
        Inl e \<Rightarrow> Inl e
      | Inr all1 \<Rightarrow>
     (case renewals_loop (vetting_renewal today t90) set_vetting df_vetting all1 of
        Inl e \<Rightarrow> Inl e
      | Inr all_renewals \<Rightarrow>
     (case expired_loop (safeguarding_expired today) df_training [] of
        Inl e \<Rightarrow> Inl e
      | Inr exp1 \<Rightarrow>
     (case expired_loop (vetting_expired today) df_vetting exp1 of
        Inl e \<Rightarrow> Inl e
      | Inr expired_items \<Rightarrow> Inr (all_renewals, expired_items))))))"

section \<open>The course scraper (\<open>scouts_courses_scraper.py\<close>)\<close>

record course =
  title :: string
  description :: string
  status :: string
  location :: string
  date :: string
  bookable :: string

definition empty_course :: course where
  "empty_course = \<lparr>title = [], description = [], status = [], location = [],
                    date = [], bookable = []\<rparr>"

definition course_lines :: "string \<Rightarrow> string list" where
  \<comment> \<open>\<open>[line.strip() for line in raw_text.split('\n') if line.strip()]\<close>\<close>
  "course_lines raw_text =
     map strip (filter (\<lambda>line. strip line \<noteq> []) (split_sep CHR 0x0A raw_text))"

definition parse_course_info :: "string \<Rightarrow> error + course" where
  "parse_course_info raw_text =
     (if length raw_text < 50 then Inr empty_course
      else
        (let lines = course_lines raw_text in
         case index lines 0 of Inl e \<Rightarrow> Inl e | Inr l0 \<Rightarrow>
        (case index lines 1 of Inl e \<Rightarrow> Inl e | Inr l1 \<Rightarrow>
        (case index lines 2 of Inl e \<Rightarrow> Inl e | Inr l2 \<Rightarrow>
        (case index (split_sep CHR '':'' l2) 1 of Inl e \<Rightarrow> Inl e | Inr st \<Rightarrow>
        (case index lines 3 of Inl e \<Rightarrow> Inl e | Inr l3 \<Rightarrow>
        (case index (split_sep CHR ''-'' l3) 0 of Inl e \<Rightarrow> Inl e | Inr loc \<Rightarrow>
        (case index (split_sep CHR ''-'' l3) 1 of Inl e \<Rightarrow> Inl e | Inr dt \<Rightarrow>
           (let course_data =
                  \<lparr>title = l0, description = l1, status = strip st, location = strip loc,
                   date = strip dt,
                   bookable = (if 5 < length lines then lines ! 5 else [])\<rparr>
            in if title course_data = [] \<and> description course_data = []
               then Inr empty_course
               else Inr course_data)))))))))"

section \<open>Reference renderings\<close>

definition digit_char :: "int \<Rightarrow> char" where
  "digit_char n = ''0123456789'' ! nat n"

definition strftime_dmY :: "int \<Rightarrow> int \<Rightarrow> int \<Rightarrow> string" where
  \<comment> \<open>the text \<open>strftime('%d/%m/%Y')\<close> prints for the day \<open>day\<close> of month \<open>month\<close> of
      year \<open>year\<close>: two digits, two digits and four digits, zero-padded\<close>
  "strftime_dmY year month day =
     [digit_char (day div 10), digit_char (day mod 10), CHR ''/'',
      digit_char (month div 10), digit_char (month mod 10), CHR ''/'',
      digit_char (year div 1000), digit_char (year div 100 mod 10),
      digit_char (year div 10 mod 10), digit_char (year mod 10)]"

section \<open>Reference notions for the date patterns\<close>

definition run :: "cclass \<Rightarrow> string \<Rightarrow> nat" where
  \<comment> \<open>how many leading characters of \<open>s\<close> are in the class\<close>
  "run cls s = length (takeWhile (cmatch cls) s)"

definition rejects :: "item list \<Rightarrow> cclass \<Rightarrow> bool" where
  \<comment> \<open>the items match no text that starts with a character of the class\<close>
  "rejects its cls = (\<forall>c t. cmatch cls c \<longrightarrow> match_here its (c # t) = None)"

definition date_like :: "string \<Rightarrow> string \<Rightarrow> string \<Rightarrow> bool" where
  \<comment> \<open>the three parts of a date-like text \<open>D/M/Y\<close>: one or two digits, one or two digits,
      four digits\<close>
  "date_like D M Y =
     (list_all isdigit D \<and> (length D = 1 \<or> length D = 2) \<and>
      list_all isdigit M \<and> (length M = 1 \<or> length M = 2) \<and>
      list_all isdigit Y \<and> length Y = 4)"

definition date_core :: "item list" where
  \<comment> \<open>\<open>(\d{1,2})/(\d{1,2})/(\d{4})\<close>, the part the three patterns share\<close>
  "date_core =
     [Rep Digit 1 (Some 2) True, Rep (Lit CHR ''/'') 1 (Some 1) False,
      Rep Digit 1 (Some 2) True, Rep (Lit CHR ''/'') 1 (Some 1) False,
      Rep Digit 4 (Some 4) True]"

section \<open>Properties of the calendar arithmetic\<close>

lemma div_step:
  assumes k: "0 < (k::int)"
  shows "y div k = (y - 1) div k + (if y mod k = 0 then 1 else 0)"
proof -
  define q r where "q = (y - 1) div k" and "r = (y - 1) mod k"
  have yqr: "y = k * q + (r + 1)"
    unfolding q_def r_def by (simp add: algebra_simps)
  have r: "0 \<le> r" "r < k" using k by (simp_all add: r_def)
  show ?thesis
  proof (cases "r + 1 = k")
    case True
    then have y: "y = k * (q + 1)" using yqr by (simp add: algebra_simps)
    have "y div k = q + 1" using k by (simp add: y)
    moreover have "y mod k = 0" by (simp add: y)
    ultimately show ?thesis by (simp add: q_def)
  next
    case False
    then have lt: "r + 1 < k" using r by simp
    have "y div k = q + (r + 1) div k" using k by (simp add: yqr)
    moreover have "(r + 1) div k = 0" using r lt by (simp add: div_pos_pos_trivial)
    moreover have "y mod k = (r + 1) mod k" by (simp add: yqr)
    moreover have "(r + 1) mod k = r + 1" using r lt by (simp add: mod_pos_pos_trivial)
    ultimately show ?thesis using r q_def by simp
  qed
qed

lemma mod_400_100: "(y::int) mod 400 = 0 \<Longrightarrow> y mod 100 = 0"
proof -
  assume "y mod 400 = 0"
  then have "400 dvd y" by (simp add: dvd_eq_mod_eq_0)
  moreover have "(100::int) dvd 400" by simp
  ultimately have "100 dvd y" by (rule dvd_trans[rotated])
  then show ?thesis by (simp add: dvd_eq_mod_eq_0)
qed

lemma mod_100_4: "(y::int) mod 100 = 0 \<Longrightarrow> y mod 4 = 0"
proof -
  assume "y mod 100 = 0"
  then have "100 dvd y" by (simp add: dvd_eq_mod_eq_0)
  moreover have "(4::int) dvd 100" by simp
  ultimately have "4 dvd y" by (rule dvd_trans[rotated])
  then show ?thesis by (simp add: dvd_eq_mod_eq_0)
qed

lemma days_before_year_Suc:
  "days_before_year (y + 1) = days_before_year y + (if is_leap y then 366 else 365)"
proof -
  define A B C where "A = (y - 1) div 4" and "B = (y - 1) div 100" and "C = (y - 1) div 400"
  define A' B' C' where "A' = y div 4" and "B' = y div 100" and "C' = y div 400"
  define m4 m100 m400 where "m4 = (y mod 4 = 0)" and "m100 = (y mod 100 = 0)"
    and "m400 = (y mod 400 = 0)"
  have a: "A' = A + (if m4 then 1 else 0)"
    unfolding A'_def A_def m4_def by (rule div_step) simp
  have b: "B' = B + (if m100 then 1 else 0)"
    unfolding B'_def B_def m100_def by (rule div_step) simp
  have c: "C' = C + (if m400 then 1 else 0)"
    unfolding C'_def C_def m400_def by (rule div_step) simp
  have i1: "m400 \<Longrightarrow> m100" unfolding m400_def m100_def by (rule mod_400_100)
  have i2: "m100 \<Longrightarrow> m4" unfolding m100_def m4_def by (rule mod_100_4)
  have lhs: "days_before_year (y + 1) = y * 365 + A' - B' + C'"
    by (simp add: days_before_year_def A'_def B'_def C'_def)
  have rhs: "days_before_year y = (y - 1) * 365 + A - B + C"
    by (simp add: days_before_year_def Let_def A_def B_def C_def)
  have leap: "is_leap y = (m4 \<and> (\<not> m100 \<or> m400))"
    by (simp add: is_leap_def m4_def m100_def m400_def)
  show ?thesis
    unfolding lhs rhs leap a b c using i1 i2
    by (cases m4; cases m100; cases m400) (simp_all add: algebra_simps)
qed

lemma days_before_year_mono:
  "y \<le> y' \<Longrightarrow> days_before_year y \<le> days_before_year y'"
proof (induction y' rule: int_ge_induct)
  case base show ?case by simp
next
  case (step i)
  then show ?case using days_before_year_Suc[of i] by (simp split: if_splits)
qed

lemma days_before_year_next:
  "y < y' \<Longrightarrow> days_before_year y + (if is_leap y then 366 else 365) \<le> days_before_year y'"
  using days_before_year_mono[of "y + 1" y'] days_before_year_Suc[of y] by simp

lemma month_cases:
  "1 \<le> (m::int) \<Longrightarrow> m \<le> 12 \<Longrightarrow>
   m \<in> {1, 2, 3, 4, 5, 6, 7, 8, 9, 10, 11, 12}"
  by simp arith

lemma days_in_month_pos: "1 \<le> m \<Longrightarrow> m \<le> 12 \<Longrightarrow> 28 \<le> days_in_month y m \<and> days_in_month y m \<le> 31"
  using month_cases[of m] by (auto simp: days_in_month_def DAYS_IN_MONTH_def)

lemma days_before_month_next:
  "1 \<le> m \<Longrightarrow> m < 12 \<Longrightarrow> days_before_month y (m + 1) = days_before_month y m + days_in_month y m"
  using month_cases[of m]
  by (auto simp: days_before_month_def days_in_month_def DAYS_IN_MONTH_def)

lemma days_before_month_last:
  "days_before_month y 12 + days_in_month y 12 = (if is_leap y then 366 else 365)"
  by (simp add: days_before_month_def days_in_month_def DAYS_IN_MONTH_def)

lemma days_before_month_first: "days_before_month y 1 = 0"
  by (simp add: days_before_month_def)

lemma days_before_month_mono:
  assumes "m \<le> m'" and "1 \<le> m" and "m' \<le> 12"
  shows "days_before_month y m \<le> days_before_month y m'"
  using assms
proof (induction m' rule: int_ge_induct)
  case base show ?case by simp
next
  case (step i)
  then show ?case
    using days_before_month_next[of i y] days_in_month_pos[of i y] by simp
qed

lemma days_before_month_step:
  assumes "1 \<le> m" "m < m'" "m' \<le> 12"
  shows "days_before_month y m + days_in_month y m \<le> days_before_month y m'"
  using days_before_month_mono[of "m + 1" m' y] days_before_month_next[of m y] assms by simp

lemma day_of_year_bounds:
  assumes "1 \<le> m" "m \<le> 12" "1 \<le> d" "d \<le> days_in_month y m"
  shows "1 \<le> days_before_month y m + d"
    and "days_before_month y m + d \<le> (if is_leap y then 366 else 365)"
proof -
  have "0 \<le> days_before_month y m"
    using days_before_month_mono[of 1 m y] assms by (simp add: days_before_month_first)
  then show "1 \<le> days_before_month y m + d" using assms by simp
  have "days_before_month y m + days_in_month y m \<le> days_before_month y 12 + days_in_month y 12"
  proof (cases "m = 12")
    case True then show ?thesis by simp
  next
    case False
    then have "days_before_month y m + days_in_month y m \<le> days_before_month y 12"
      using days_before_month_step[of m 12 y] assms by simp
    then show ?thesis using days_in_month_pos[of 12 y] by simp
  qed
  then show "days_before_month y m + d \<le> (if is_leap y then 366 else 365)"
    using assms days_before_month_last[of y] by simp
qed

lemma ymd2ord_bounds:
  assumes "valid_ymd y m d"
  shows "1 \<le> ymd2ord y m d" and "ymd2ord y m d \<le> MAXORDINAL"
    and "days_before_year y < ymd2ord y m d"
    and "ymd2ord y m d \<le> days_before_year (y + 1)"
proof -
  from assms have v: "1 \<le> y" "y \<le> 9999" "1 \<le> m" "m \<le> 12" "1 \<le> d" "d \<le> days_in_month y m"
    by (simp_all add: valid_ymd_def MINYEAR_def MAXYEAR_def)
  note doy = day_of_year_bounds[OF v(3-6)]
  have lo: "0 \<le> days_before_year y"
    using days_before_year_mono[of 1 y] v by (simp add: days_before_year_def)
  show "days_before_year y < ymd2ord y m d" using doy(1) by (simp add: ymd2ord_def)
  then show "1 \<le> ymd2ord y m d" using lo by simp
  show up: "ymd2ord y m d \<le> days_before_year (y + 1)"
    using doy(2) days_before_year_Suc[of y] by (simp add: ymd2ord_def split: if_splits)
  have "days_before_year (y + 1) \<le> days_before_year 10000"
    using days_before_year_mono[of "y + 1" 10000] v by simp
  also have "days_before_year 10000 = 3652059" by (simp add: days_before_year_def)
  finally show "ymd2ord y m d \<le> MAXORDINAL" using up by (simp add: MAXORDINAL_def)
qed

lemma ymd2ord_inj:
  assumes "valid_ymd y m d" "valid_ymd y' m' d'" "ymd2ord y m d = ymd2ord y' m' d'"
  shows "y = y' \<and> m = m' \<and> d = d'"
proof -
  from assms(1) have v: "1 \<le> m" "m \<le> 12" "1 \<le> d" "d \<le> days_in_month y m"
    by (simp_all add: valid_ymd_def)
  from assms(2) have v': "1 \<le> m'" "m' \<le> 12" "1 \<le> d'" "d' \<le> days_in_month y' m'"
    by (simp_all add: valid_ymd_def)
  have y: "y = y'"
  proof (rule ccontr)
    assume "y \<noteq> y'"
    then consider "y < y'" | "y' < y" by linarith
    then show False
    proof cases
      case 1
      then have "days_before_year (y + 1) \<le> days_before_year y'"
        using days_before_year_mono[of "y + 1" y'] by simp
      then show False
        using ymd2ord_bounds(4)[OF assms(1)] ymd2ord_bounds(3)[OF assms(2)] assms(3) by simp
    next
      case 2
      then have "days_before_year (y' + 1) \<le> days_before_year y"
        using days_before_year_mono[of "y' + 1" y] by simp
      then show False
        using ymd2ord_bounds(4)[OF assms(2)] ymd2ord_bounds(3)[OF assms(1)] assms(3) by simp
    qed
  qed
  have eq: "days_before_month y m + d = days_before_month y m' + d'"
    using assms(3) y by (simp add: ymd2ord_def)
  have m: "m = m'"
  proof (rule ccontr)
    assume "m \<noteq> m'"
    then consider "m < m'" | "m' < m" by linarith
    then show False
    proof cases
      case 1
      then show False using days_before_month_step[of m m' y] v v' eq by simp
    next
      case 2
      then show False using days_before_month_step[of m' m y] v v' eq y by simp
    qed
  qed
  show ?thesis using y m eq by simp
qed

section \<open>Properties of the pattern matcher\<close>

lemma give_back_below: "k < lo \<Longrightarrow> give_back lo cap its k s = None"
  by (subst give_back.simps) simp

lemma give_back_None_iff:
  "(give_back lo cap its k s = None) = (\<forall>j. lo \<le> j \<and> j \<le> k \<longrightarrow> match_here its (drop j s) = None)"
proof (induction k)
  case 0
  show ?case by (subst give_back.simps) (auto split: option.splits)
next
  case (Suc k)
  show ?case
  proof (cases "Suc k < lo")
    case True
    then show ?thesis by (subst give_back.simps) auto
  next
    case False
    show ?thesis
    proof (cases "match_here its (drop (Suc k) s)")
      case None
      have "(\<forall>j. lo \<le> j \<and> j \<le> Suc k \<longrightarrow> match_here its (drop j s) = None) =
            (\<forall>j. lo \<le> j \<and> j \<le> k \<longrightarrow> match_here its (drop j s) = None)"
        using None by (metis le_Suc_eq)
      then show ?thesis using None False Suc by (subst give_back.simps) simp
    next
      case (Some a)
      have "give_back lo cap its (Suc k) s \<noteq> None"
        using Some False by (subst give_back.simps) (auto split: prod.splits)
      moreover have "\<not> (\<forall>j. lo \<le> j \<and> j \<le> Suc k \<longrightarrow> match_here its (drop j s) = None)"
        using Some False by (auto intro!: exI[of _ "Suc k"])
      ultimately show ?thesis by blast
    qed
  qed
qed

lemma give_back_exact:
  "give_back k cap its k s =
     (case match_here its (drop k s) of
        None \<Rightarrow> None
      | Some (gs, r) \<Rightarrow> Some (if cap then take k s # gs else gs, r))"
proof -
  have "k \<noteq> 0 \<Longrightarrow> give_back k cap its (k - 1) s = None"
    by (simp add: give_back_below)
  then show ?thesis
    by (subst give_back.simps) (auto split: option.splits)
qed

lemma give_back_top:
  assumes "lo \<le> k"
    and "\<forall>j. lo \<le> j \<and> j < k \<longrightarrow> match_here its (drop j s) = None"
  shows "give_back lo cap its k s =
     (case match_here its (drop k s) of
        None \<Rightarrow> None
      | Some (gs, r) \<Rightarrow> Some (if cap then take k s # gs else gs, r))"
proof (cases "match_here its (drop k s)")
  case None
  then have "give_back lo cap its k s = None"
    using assms(2) by (simp add: give_back_None_iff) (metis le_neq_implies_less)
  then show ?thesis using None by simp
next
  case (Some a)
  then show ?thesis using assms(1) by (subst give_back.simps) (auto split: prod.splits)
qed

lemma drop_in_run:
  assumes "j < run cls s"
  shows "\<exists>c t. drop j s = c # t \<and> cmatch cls c"
proof -
  have len: "j < length (takeWhile (cmatch cls) s)" using assms by (simp add: run_def)
  then have js: "j < length s" using length_takeWhile_le[of "cmatch cls" s] by linarith
  have "cmatch cls (s ! j)" using len by (metis nth_mem set_takeWhileD takeWhile_nth)
  moreover have "drop j s = s ! j # drop (Suc j) s" using js by (simp add: Cons_nth_drop_Suc)
  ultimately show ?thesis by blast
qed

lemma match_here_exact:
  "match_here (Rep cls k (Some k) cap # its) s =
     (if k \<le> run cls s
      then (case match_here its (drop k s) of
              None \<Rightarrow> None
            | Some (gs, r) \<Rightarrow> Some (if cap then take k s # gs else gs, r))
      else None)"
proof (cases "k \<le> run cls s")
  case True
  then have "min k (run cls s) = k" by simp
  then show ?thesis using True by (simp add: run_def[symmetric] Let_def give_back_exact)
next
  case False
  then have "min k (run cls s) < k" by simp
  then have "give_back k cap its (min k (run cls s)) s = None"
    by (rule give_back_below)
  then show ?thesis using False by (simp add: run_def[symmetric] Let_def)
qed

lemma match_here_bounded:
  assumes "rejects its cls"
  shows "match_here (Rep cls lo (Some hi) cap # its) s =
     (if lo \<le> run cls s \<and> run cls s \<le> hi
      then (case match_here its (drop (run cls s) s) of
              None \<Rightarrow> None
            | Some (gs, r) \<Rightarrow> Some (if cap then take (run cls s) s # gs else gs, r))
      else None)"
proof -
  let ?n = "run cls s"
  have below: "\<And>j. j < ?n \<Longrightarrow> match_here its (drop j s) = None"
    using drop_in_run[of _ cls s] assms unfolding rejects_def by metis
  show ?thesis
  proof (cases "lo \<le> ?n \<and> ?n \<le> hi")
    case True
    then have "min hi ?n = ?n" by simp
    moreover have "give_back lo cap its ?n s =
       (case match_here its (drop ?n s) of None \<Rightarrow> None
        | Some (gs, r) \<Rightarrow> Some (if cap then take ?n s # gs else gs, r))"
      using True below by (intro give_back_top) auto
    ultimately show ?thesis using True by (simp add: run_def[symmetric] Let_def)
  next
    case False
    have "give_back lo cap its (min hi ?n) s = None"
    proof (cases "?n < lo")
      case True
      then have "min hi ?n < lo" by simp
      then show ?thesis by (rule give_back_below)
    next
      case f: False
      then have "hi < ?n" using False by simp
      then show ?thesis using below by (simp add: give_back_None_iff)
    qed
    then show ?thesis using False by (auto simp add: run_def[symmetric] Let_def)
  qed
qed

lemma match_here_unbounded:
  assumes "rejects its cls"
  shows "match_here (Rep cls lo None cap # its) s =
     (if lo \<le> run cls s
      then (case match_here its (drop (run cls s) s) of
              None \<Rightarrow> None
            | Some (gs, r) \<Rightarrow> Some (if cap then take (run cls s) s # gs else gs, r))
      else None)"
proof -
  let ?n = "run cls s"
  have below: "\<And>j. j < ?n \<Longrightarrow> match_here its (drop j s) = None"
    using drop_in_run[of _ cls s] assms unfolding rejects_def by metis
  show ?thesis
  proof (cases "lo \<le> ?n")
    case True
    have "give_back lo cap its ?n s =
       (case match_here its (drop ?n s) of None \<Rightarrow> None
        | Some (gs, r) \<Rightarrow> Some (if cap then take ?n s # gs else gs, r))"
      using True below by (intro give_back_top) auto
    then show ?thesis using True by (simp add: run_def[symmetric] Let_def)
  next
    case False
    then have "give_back lo cap its ?n s = None" by (simp add: give_back_below)
    then show ?thesis using False by (simp add: run_def[symmetric] Let_def)
  qed
qed

lemma rejects_Rep:
  assumes "0 < lo" and "\<And>c. cmatch cls c \<Longrightarrow> \<not> cmatch cls' c"
  shows "rejects (Rep cls' lo hi cap # its) cls"
  unfolding rejects_def
proof (intro allI impI)
  fix c t assume "cmatch cls c"
  then have "takeWhile (cmatch cls') (c # t) = []" using assms(2) by simp
  then have "match_here (Rep cls' lo hi cap # its) (c # t) = give_back lo cap its 0 (c # t)"
    by (cases hi) (simp_all add: Let_def)
  also have "\<dots> = None" using assms(1) by (simp add: give_back_below)
  finally show "match_here (Rep cls' lo hi cap # its) (c # t) = None" .
qed

lemma run_prefix:
  assumes "list_all (cmatch cls) u" and "t = [] \<or> \<not> cmatch cls (hd t)"
  shows "run cls (u @ t) = length u"
proof -
  have "takeWhile (cmatch cls) (u @ t) = u @ takeWhile (cmatch cls) t"
    using assms(1) by (intro takeWhile_append2) (simp add: list_all_iff)
  moreover have "takeWhile (cmatch cls) t = []" using assms(2) by (cases t) auto
  ultimately show ?thesis by (simp add: run_def)
qed

lemma run_prefix_ge:
  assumes "list_all (cmatch cls) u"
  shows "length u \<le> run cls (u @ t)"
proof -
  have "takeWhile (cmatch cls) (u @ t) = u @ takeWhile (cmatch cls) t"
    using assms(1) by (intro takeWhile_append2) (simp add: list_all_iff)
  then show ?thesis by (simp add: run_def)
qed

lemma run_le_length: "run cls s \<le> length s"
  by (simp add: run_def length_takeWhile_le)

lemma run_take:
  assumes "k \<le> run cls s"
  shows "list_all (cmatch cls) (take k s)" and "length (take k s) = k"
proof -
  have "take k s = take k (takeWhile (cmatch cls) s)"
    using assms unfolding run_def
    by (metis append_eq_conv_conj takeWhile_dropWhile_id take_all_iff take_append
        diff_is_0_eq' take_0 append_Nil2 min.absorb2 take_take)
  moreover have "list_all (cmatch cls) (takeWhile (cmatch cls) s)"
    by (simp add: list_all_iff) (meson set_takeWhileD)
  ultimately show "list_all (cmatch cls) (take k s)"
    by (metis list_all_iff in_set_takeD)
  show "length (take k s) = k" using assms run_le_length[of cls s] by simp
qed

lemma run_stop: "drop (run cls s) s = [] \<or> \<not> cmatch cls (hd (drop (run cls s) s))"
  unfolding run_def by (metis dropWhile_eq_drop hd_dropWhile)

lemma match_here_one:
  "match_here (Rep cls 1 (Some 1) False # its) s =
     (case s of [] \<Rightarrow> None | x # t \<Rightarrow> if cmatch cls x then match_here its t else None)"
  unfolding match_here_exact
  by (cases s) (auto simp add: run_def split: option.splits)

lemma digit_not_slash: "cmatch Digit c \<Longrightarrow> \<not> cmatch (Lit CHR ''/'') c"
  by (auto simp: isdigit_def)

lemma rejects_slash: "rejects (Rep (Lit CHR ''/'') 1 (Some 1) False # its) Digit"
  by (rule rejects_Rep) (simp_all add: digit_not_slash del: cmatch.simps)

lemma match_date_core_elim:
  assumes "match_here (date_core @ its) s = Some (G, r)"
  shows "\<exists>D M Y t gs. s = D @ ''/'' @ M @ ''/'' @ Y @ t \<and> date_like D M Y \<and>
           match_here its t = Some (gs, r) \<and> G = D # M # Y # gs"
proof -
  let ?sl = "Rep (Lit CHR ''/'') 1 (Some 1) False"
  let ?p4 = "Rep Digit 4 (Some 4) True # its"
  let ?p3 = "?sl # ?p4"
  let ?p2 = "Rep Digit 1 (Some 2) True # ?p3"
  let ?p1 = "?sl # ?p2"
  define n1 where "n1 = run Digit s"
  have m0: "match_here (Rep Digit 1 (Some 2) True # ?p1) s = Some (G, r)"
    using assms by (simp add: date_core_def)
  have n1: "1 \<le> n1" "n1 \<le> 2" and
    m1: "\<exists>g1. match_here ?p1 (drop n1 s) = Some (g1, r) \<and> G = take n1 s # g1"
    using m0 unfolding match_here_bounded[OF rejects_slash] n1_def
    by (auto split: if_splits option.splits)
  then obtain g1 where g1: "match_here ?p1 (drop n1 s) = Some (g1, r)" "G = take n1 s # g1"
    by blast
  from g1(1) obtain s2 where s2: "drop n1 s = CHR ''/'' # s2" "match_here ?p2 s2 = Some (g1, r)"
    unfolding match_here_one by (auto split: list.splits if_splits)
  define n2 where "n2 = run Digit s2"
  have n2: "1 \<le> n2" "n2 \<le> 2" and
    m2: "\<exists>g2. match_here ?p3 (drop n2 s2) = Some (g2, r) \<and> g1 = take n2 s2 # g2"
    using s2(2) unfolding match_here_bounded[OF rejects_slash] n2_def
    by (auto split: if_splits option.splits)
  then obtain g2 where g2: "match_here ?p3 (drop n2 s2) = Some (g2, r)" "g1 = take n2 s2 # g2"
    by blast
  from g2(1) obtain s4 where s4: "drop n2 s2 = CHR ''/'' # s4" "match_here ?p4 s4 = Some (g2, r)"
    unfolding match_here_one by (auto split: list.splits if_splits)
  have n4: "4 \<le> run Digit s4" and
    m4: "\<exists>gs. match_here its (drop 4 s4) = Some (gs, r) \<and> g2 = take 4 s4 # gs"
    using s4(2) unfolding match_here_exact by (auto split: if_splits option.splits)
  then obtain gs where gs: "match_here its (drop 4 s4) = Some (gs, r)" "g2 = take 4 s4 # gs"
    by blast
  have "s = take n1 s @ drop n1 s" by simp
  also have "\<dots> = take n1 s @ ''/'' @ s2" using s2(1) by simp
  also have "s2 = take n2 s2 @ drop n2 s2" by simp
  also have "drop n2 s2 = ''/'' @ s4" using s4(1) by simp
  also have "s4 = take 4 s4 @ drop 4 s4" by simp
  finally have s: "s = take n1 s @ ''/'' @ take n2 s2 @ ''/'' @ take 4 s4 @ drop 4 s4" .
  have dl: "date_like (take n1 s) (take n2 s2) (take 4 s4)"
    unfolding date_like_def
    using run_take[of n1 Digit s] run_take[of n2 Digit s2] run_take[of 4 Digit s4] n1 n2 n4
    by (auto simp: n1_def n2_def list_all_iff)
  show ?thesis using s dl gs g1(2) g2(2) by blast
qed

lemma digits_step:
  assumes "rejects its Digit" and "list_all (cmatch Digit) D"
    and "1 \<le> length D" and "length D \<le> 2"
    and "t = [] \<or> \<not> cmatch Digit (hd t)"
  shows "match_here (Rep Digit 1 (Some 2) True # its) (D @ t) =
    (case match_here its t of None \<Rightarrow> None | Some (gs, r) \<Rightarrow> Some (D # gs, r))"
proof -
  have r: "run Digit (D @ t) = length D" using assms(2,5) by (rule run_prefix)
  show ?thesis
    by (subst match_here_bounded[OF assms(1)])
       (use assms(3,4) in \<open>simp add: r del: match_here.simps split: option.splits\<close>)
qed

lemma slash_step:
  "match_here (Rep (Lit CHR ''/'') 1 (Some 1) False # its) (CHR ''/'' # t) = match_here its t"
  by (subst match_here_one) simp

lemma year_step:
  assumes "list_all (cmatch Digit) Y" and "length Y = 4"
  shows "match_here (Rep Digit 4 (Some 4) True # its) (Y @ t) =
    (case match_here its t of None \<Rightarrow> None | Some (gs, r) \<Rightarrow> Some (Y # gs, r))"
proof -
  have "4 \<le> run Digit (Y @ t)" using run_prefix_ge[OF assms(1), of t] assms(2) by simp
  then show ?thesis
    using assms(2) by (simp add: match_here_exact del: match_here.simps split: option.splits)
qed

lemma match_date_core_intro:
  assumes "date_like D M Y"
  shows "match_here (date_core @ its) (D @ ''/'' @ M @ ''/'' @ Y @ t) =
    (case match_here its t of None \<Rightarrow> None | Some (gs, r) \<Rightarrow> Some (D # M # Y # gs, r))"
proof -
  from assms have D: "list_all (cmatch Digit) D" "1 \<le> length D" "length D \<le> 2"
    and M: "list_all (cmatch Digit) M" "1 \<le> length M" "length M \<le> 2"
    and Y: "list_all (cmatch Digit) Y" "length Y = 4"
    by (auto simp: date_like_def list_all_iff)
  have ns: "\<And>u. ''/'' @ u = [] \<or> \<not> cmatch Digit (hd (''/'' @ u))"
    by (simp add: isdigit_def)
  let ?sl = "Rep (Lit CHR ''/'') 1 (Some 1) False"
  let ?p4 = "Rep Digit 4 (Some 4) True # its"
  let ?p2 = "Rep Digit 1 (Some 2) True # ?sl # ?p4"
  have "match_here (date_core @ its) (D @ ''/'' @ M @ ''/'' @ Y @ t) =
        match_here (Rep Digit 1 (Some 2) True # ?sl # ?p2) (D @ ''/'' @ M @ ''/'' @ Y @ t)"
    by (simp only: date_core_def append_Cons append_Nil)
  also have "\<dots> = (case match_here (?sl # ?p2) (''/'' @ M @ ''/'' @ Y @ t) of
       None \<Rightarrow> None | Some (gs, r) \<Rightarrow> Some (D # gs, r))"
    using rejects_slash D ns by (rule digits_step)
  also have "match_here (?sl # ?p2) (''/'' @ M @ ''/'' @ Y @ t) =
       match_here ?p2 (M @ ''/'' @ Y @ t)"
    by (simp only: append_Cons append_Nil slash_step)
  also have "\<dots> = (case match_here (?sl # ?p4) (''/'' @ Y @ t) of
       None \<Rightarrow> None | Some (gs, r) \<Rightarrow> Some (M # gs, r))"
    using rejects_slash M ns by (rule digits_step)
  also have "match_here (?sl # ?p4) (''/'' @ Y @ t) = match_here ?p4 (Y @ t)"
    by (simp only: append_Cons append_Nil slash_step)
  also have "\<dots> = (case match_here its t of
       None \<Rightarrow> None | Some (gs, r) \<Rightarrow> Some (Y # gs, r))"
    using Y by (rule year_step)
  finally show ?thesis by (simp del: match_here.simps split: option.splits)
qed

lemma strip_id:
  assumes "s \<noteq> []" "\<not> isspace (hd s)" "\<not> isspace (last s)"
  shows "strip s = s"
proof -
  have 1: "dropWhile isspace s = s" using assms(1,2) by (cases s) auto
  have "rev s \<noteq> []" "\<not> isspace (hd (rev s))" using assms(1,3) by (simp_all add: hd_rev)
  then have 2: "dropWhile isspace (rev s) = rev s" by (cases "rev s") auto
  show ?thesis by (simp add: strip_def 1 2)
qed

lemma strip_last:
  assumes "strip s \<noteq> []"
  shows "\<not> isspace (last (strip s))"
proof -
  let ?u = "dropWhile isspace (rev (dropWhile isspace s))"
  have ne: "?u \<noteq> []" using assms by (simp add: strip_def)
  then have "\<not> isspace (hd ?u)" by (rule hd_dropWhile)
  moreover have "last (strip s) = hd ?u" using ne by (simp add: strip_def last_rev)
  ultimately show ?thesis by simp
qed

lemma match_here_Eos:
  "match_here [Eos] t = (if t = [] \<or> t = [CHR 0x0A] then Some ([], t) else None)"
  by simp

lemma vetting_pattern_core: "vetting_pattern = date_core @ [Eos]"
  by (simp add: vetting_pattern_def date_core_def)

lemma date_pattern_alt_core: "date_pattern_alt = date_core @ []"
  by (simp add: date_pattern_alt_def date_core_def)

lemma re_match_vetting_iff:
  "(re_match vetting_pattern s = Some G) =
   (\<exists>D M Y t. s = D @ ''/'' @ M @ ''/'' @ Y @ t \<and> date_like D M Y \<and>
      (t = [] \<or> t = [CHR 0x0A]) \<and> G = [D, M, Y])"
proof
  assume "re_match vetting_pattern s = Some G"
  then obtain r where "match_here (date_core @ [Eos]) s = Some (G, r)"
    by (auto simp: re_match_def vetting_pattern_core)
  from match_date_core_elim[OF this] obtain D M Y t gs where
    *: "s = D @ ''/'' @ M @ ''/'' @ Y @ t" "date_like D M Y"
       "match_here [Eos] t = Some (gs, r)" "G = D # M # Y # gs" by blast
  from *(3) have "(t = [] \<or> t = [CHR 0x0A]) \<and> gs = []"
    unfolding match_here_Eos by (auto split: if_splits)
  with * show "\<exists>D M Y t. s = D @ ''/'' @ M @ ''/'' @ Y @ t \<and> date_like D M Y \<and>
      (t = [] \<or> t = [CHR 0x0A]) \<and> G = [D, M, Y]" by blast
next
  assume "\<exists>D M Y t. s = D @ ''/'' @ M @ ''/'' @ Y @ t \<and> date_like D M Y \<and>
      (t = [] \<or> t = [CHR 0x0A]) \<and> G = [D, M, Y]"
  then obtain D M Y t where *: "s = D @ ''/'' @ M @ ''/'' @ Y @ t" "date_like D M Y"
      "t = [] \<or> t = [CHR 0x0A]" "G = [D, M, Y]" by blast
  have "match_here (date_core @ [Eos]) s = Some ([D, M, Y], t)"
    unfolding *(1) match_date_core_intro[OF *(2)] match_here_Eos using *(3) by auto
  then show "re_match vetting_pattern s = Some G"
    by (simp add: re_match_def vetting_pattern_core *(4))
qed

lemma re_match_vetting_strip_iff:
  "(re_match vetting_pattern (strip s) = Some G) =
   (\<exists>D M Y. strip s = D @ ''/'' @ M @ ''/'' @ Y \<and> date_like D M Y \<and> G = [D, M, Y])"
proof -
  have "\<not> (\<exists>D M Y. strip s = D @ ''/'' @ M @ ''/'' @ Y @ [CHR 0x0A])"
  proof
    assume "\<exists>D M Y. strip s = D @ ''/'' @ M @ ''/'' @ Y @ [CHR 0x0A]"
    then obtain D M Y where e: "strip s = D @ ''/'' @ M @ ''/'' @ Y @ [CHR 0x0A]" by blast
    then have "strip s \<noteq> []" "last (strip s) = CHR 0x0A" by simp_all
    then show False using strip_last[of s] by (simp add: isspace_def)
  qed
  then show ?thesis unfolding re_match_vetting_iff by (metis append_Nil2)
qed

lemma py_int_digits: "list_all isdigit s \<Longrightarrow> s \<noteq> [] \<Longrightarrow> py_int s = Inr (int_of_digits s)"
  by (simp add: py_int_def)

lemma date_of_groups_like:
  assumes "date_like D M Y"
  shows "date_of_groups [D, M, Y] =
           datetime_new (int_of_digits Y) (int_of_digits M) (int_of_digits D)"
proof -
  from assms have "py_int D = Inr (int_of_digits D)" "py_int M = Inr (int_of_digits M)"
    "py_int Y = Inr (int_of_digits Y)"
    by (auto simp: date_like_def intro!: py_int_digits)
  then show ?thesis by (simp add: date_of_groups_def)
qed

lemma datetime_new_cases:
  "datetime_new y m d =
     (if valid_ymd y m d then Inr \<lparr>ordinal = ymd2ord y m d, microsecond = 0\<rparr>
      else Inl ValueError)"
  by (auto simp: datetime_new_def valid_ymd_def)

lemma parse_vetting_date_match:
  assumes "strip s = D @ ''/'' @ M @ ''/'' @ Y" and "date_like D M Y"
  shows "parse_vetting_date (Text s) =
           map_sum id Some (datetime_new (int_of_digits Y) (int_of_digits M) (int_of_digits D))"
proof -
  have "re_match vetting_pattern (strip s) = Some [D, M, Y]"
    unfolding re_match_vetting_strip_iff using assms by blast
  then show ?thesis by (simp add: parse_vetting_date_def date_of_groups_like[OF assms(2)])
qed

lemma parse_vetting_date_no_match:
  assumes "\<not> (\<exists>D M Y. strip s = D @ ''/'' @ M @ ''/'' @ Y \<and> date_like D M Y)"
  shows "parse_vetting_date (Text s) = Inr None"
proof -
  have "re_match vetting_pattern (strip s) = None"
  proof (cases "re_match vetting_pattern (strip s)")
    case None then show ?thesis .
  next
    case (Some G)
    then have "\<exists>D M Y. strip s = D @ ''/'' @ M @ ''/'' @ Y \<and> date_like D M Y \<and> G = [D, M, Y]"
      by (simp only: re_match_vetting_strip_iff)
    with assms show ?thesis by blast
  qed
  then show ?thesis by (simp add: parse_vetting_date_def)
qed

section \<open>Properties of the date parsers\<close>

lemma digit_cases:
  "0 \<le> (n::int) \<Longrightarrow> n \<le> 9 \<Longrightarrow>
   n \<in> {0, 1, 2, 3, 4, 5, 6, 7, 8, 9}"
  by simp arith

lemma digit_char_isdigit: "0 \<le> n \<Longrightarrow> n \<le> 9 \<Longrightarrow> isdigit (digit_char n)"
  using digit_cases[of n] by (auto simp: digit_char_def isdigit_def)

lemma digit_val_digit_char: "0 \<le> n \<Longrightarrow> n \<le> 9 \<Longrightarrow> digit_val (digit_char n) = n"
  using digit_cases[of n] by (auto simp: digit_char_def digit_val_def)

lemma isdigit_not_isspace: "isdigit c \<Longrightarrow> \<not> isspace c"
  by (auto simp: isdigit_def isspace_def)

lemma two_digits:
  assumes "0 \<le> n" "n \<le> 99"
  shows "list_all isdigit [digit_char (n div 10), digit_char (n mod 10)]"
    and "int_of_digits [digit_char (n div 10), digit_char (n mod 10)] = n"
proof -
  have a: "0 \<le> n div 10" "n div 10 \<le> 9" using assms by simp_all
  have b: "0 \<le> n mod 10" "n mod 10 \<le> 9" by simp_all
  show "list_all isdigit [digit_char (n div 10), digit_char (n mod 10)]"
    using a b by (simp add: digit_char_isdigit)
  show "int_of_digits [digit_char (n div 10), digit_char (n mod 10)] = n"
    using a b by (simp add: int_of_digits_def digit_val_digit_char)
qed

lemma four_digits:
  assumes "0 \<le> n" "n \<le> 9999"
  shows "list_all isdigit [digit_char (n div 1000), digit_char (n div 100 mod 10),
           digit_char (n div 10 mod 10), digit_char (n mod 10)]"
    and "int_of_digits [digit_char (n div 1000), digit_char (n div 100 mod 10),
           digit_char (n div 10 mod 10), digit_char (n mod 10)] = n"
proof -
  define a b c where "a = n div 10" and "b = a div 10" and "c = b div 10"
  have b_eq: "n div 100 = b" using zdiv_zmult2_eq[of 10 n 10] by (simp add: a_def b_def)
  have c_eq: "n div 1000 = c" using zdiv_zmult2_eq[of 10 n 100] b_eq
    by (simp add: c_def)
  have n: "n = 10 * a + n mod 10" by (simp add: a_def)
  have a: "a = 10 * b + a mod 10" by (simp add: b_def)
  have b: "b = 10 * c + b mod 10" by (simp add: c_def)
  have c: "0 \<le> c" "c \<le> 9" using assms unfolding c_eq[symmetric] by simp_all
  have r: "0 \<le> b mod 10" "b mod 10 \<le> 9" "0 \<le> a mod 10" "a mod 10 \<le> 9"
    "0 \<le> n mod 10" "n mod 10 \<le> 9" by simp_all
  show "list_all isdigit [digit_char (n div 1000), digit_char (n div 100 mod 10),
           digit_char (n div 10 mod 10), digit_char (n mod 10)]"
    unfolding b_eq c_eq a_def[symmetric] using c r by (simp add: digit_char_isdigit)
  have "int_of_digits [digit_char c, digit_char (b mod 10), digit_char (a mod 10),
          digit_char (n mod 10)] = 10 * (10 * (10 * c + b mod 10) + a mod 10) + n mod 10"
    using c r by (simp add: int_of_digits_def digit_val_digit_char)
  also have "\<dots> = n"
  proof -
    define r0 r1 r2 where "r0 = n mod 10" and "r1 = a mod 10" and "r2 = b mod 10"
    have "n = 10 * a + r0" "a = 10 * b + r1" "b = 10 * c + r2"
      using n a b by (simp_all only: r0_def r1_def r2_def)
    then have "10 * (10 * (10 * c + r2) + r1) + r0 = n" by simp
    then show ?thesis by (simp only: r0_def r1_def r2_def)
  qed
  finally show "int_of_digits [digit_char (n div 1000), digit_char (n div 100 mod 10),
           digit_char (n div 10 mod 10), digit_char (n mod 10)] = n"
    unfolding b_eq c_eq a_def[symmetric] .
qed

lemma strftime_dmY_shape:
  assumes "valid_ymd y m d"
  shows "\<exists>D M Y. strftime_dmY y m d = D @ ''/'' @ M @ ''/'' @ Y \<and> date_like D M Y \<and>
           int_of_digits D = d \<and> int_of_digits M = m \<and> int_of_digits Y = y \<and>
           strip (strftime_dmY y m d) = strftime_dmY y m d"
proof -
  from assms have v: "1 \<le> y" "y \<le> 9999" "1 \<le> m" "m \<le> 12" "1 \<le> d" "d \<le> days_in_month y m"
    by (simp_all add: valid_ymd_def MINYEAR_def MAXYEAR_def)
  have d31: "d \<le> 31" using days_in_month_pos[of m y] v by simp
  let ?D = "[digit_char (d div 10), digit_char (d mod 10)]"
  let ?M = "[digit_char (m div 10), digit_char (m mod 10)]"
  let ?Y = "[digit_char (y div 1000), digit_char (y div 100 mod 10),
             digit_char (y div 10 mod 10), digit_char (y mod 10)]"
  have d0: "0 \<le> d" "d \<le> 99" and m0: "0 \<le> m" "m \<le> 99" and y0: "0 \<le> y"
    using v d31 by linarith+
  have D: "list_all isdigit ?D" "int_of_digits ?D = d"
    by (rule two_digits[OF d0])+
  have M: "list_all isdigit ?M" "int_of_digits ?M = m"
    by (rule two_digits[OF m0])+
  have Y: "list_all isdigit ?Y" "int_of_digits ?Y = y"
    by (rule four_digits[OF y0 v(2)])+
  have shape: "strftime_dmY y m d = ?D @ ''/'' @ ?M @ ''/'' @ ?Y"
    by (simp add: strftime_dmY_def)
  have dl: "date_like ?D ?M ?Y" unfolding date_like_def using D(1) M(1) Y(1) by simp
  have "\<not> isspace (digit_char (d div 10))" "\<not> isspace (digit_char (y mod 10))"
    using D(1) Y(1) by (simp_all add: isdigit_not_isspace)
  then have st: "strip (strftime_dmY y m d) = strftime_dmY y m d"
    by (intro strip_id) (simp_all add: strftime_dmY_def)
  show ?thesis using shape dl D(2) M(2) Y(2) st by blast
qed

text \<open>
  C8. For every valid calendar date, given by its year, month and day, the text
  \<open>dd/mm/yyyy\<close> of the date is parsed by \<open>parse_vetting_date\<close> to the \<open>datetime\<close> the
  constructor builds for that year, month and day, midnight of that day; no other valid
  date has the same day number, so the result is exactly the date that was rendered.
\<close>

theorem parse_vetting_date_roundtrip:
  assumes "valid_ymd y m d"
  shows "parse_vetting_date (Text (strftime_dmY y m d)) =
           Inr (Some \<lparr>ordinal = ymd2ord y m d, microsecond = 0\<rparr>) \<and>
         datetime_new y m d = Inr \<lparr>ordinal = ymd2ord y m d, microsecond = 0\<rparr> \<and>
         (\<forall>y' m' d'. valid_ymd y' m' d' \<and> ymd2ord y' m' d' = ymd2ord y m d \<longrightarrow>
             y' = y \<and> m' = m \<and> d' = d)"
proof -
  from strftime_dmY_shape[OF assms] obtain D M Y where
    *: "strftime_dmY y m d = D @ ''/'' @ M @ ''/'' @ Y" "date_like D M Y"
       "int_of_digits D = d" "int_of_digits M = m" "int_of_digits Y = y"
       "strip (strftime_dmY y m d) = strftime_dmY y m d" by blast
  have "strip (strftime_dmY y m d) = D @ ''/'' @ M @ ''/'' @ Y" using *(1,6) by simp
  from parse_vetting_date_match[OF this *(2)]
  have "parse_vetting_date (Text (strftime_dmY y m d)) = map_sum id Some (datetime_new y m d)"
    by (simp add: *(3,4,5))
  moreover have dn: "datetime_new y m d = Inr \<lparr>ordinal = ymd2ord y m d, microsecond = 0\<rparr>"
    using assms by (simp add: datetime_new_cases)
  moreover have "\<forall>y' m' d'. valid_ymd y' m' d' \<and> ymd2ord y' m' d' = ymd2ord y m d \<longrightarrow>
             y' = y \<and> m' = m \<and> d' = d"
    using ymd2ord_inj[OF _ assms] by blast
  ultimately show ?thesis by simp
qed

theorem parse_vetting_date_roundtrip_witness:
  "valid_ymd 2024 2 29 \<and>
   parse_vetting_date (Text ''29/02/2024'') = Inr (Some \<lparr>ordinal = 738945, microsecond = 0\<rparr>)"
proof -
  have v: "valid_ymd 2024 2 29"
    by (simp add: valid_ymd_def MINYEAR_def MAXYEAR_def days_in_month_def is_leap_def)
  have s: "strftime_dmY 2024 2 29 = ''29/02/2024''"
    by (simp add: strftime_dmY_def digit_char_def)
  have o: "ymd2ord 2024 2 29 = 738945"
    by (simp add: ymd2ord_def days_before_year_def days_before_month_def DAYS_IN_MONTH_def
        is_leap_def)
  show ?thesis using parse_vetting_date_roundtrip[OF v] v by (simp add: s o)
qed

section \<open>Properties of the renewal classification\<close>

lemma add_days_cases:
  "add_days dt n = (if 0 < ordinal dt + n \<and> ordinal dt + n \<le> MAXORDINAL
                    then Inr (dt\<lparr>ordinal := ordinal dt + n\<rparr>) else Inl OverflowError)"
  by (simp add: add_days_def Let_def)

lemma dt_le_refl: "dt_le a a"
  by (simp add: dt_le_def)


lemma dt_lt_iff_not_le: "dt_lt a b = (\<not> dt_le b a)"
  by (auto simp: dt_lt_def dt_le_def)

lemma dt_le_trans: "dt_le a b \<Longrightarrow> dt_le b c \<Longrightarrow> dt_le a c"
  by (auto simp: dt_le_def)

lemma dt_le_antisym: "dt_le a b \<Longrightarrow> dt_le b a \<Longrightarrow> a = (b::datetime)"
  by (auto simp: dt_le_def)

lemma dt_le_total: "dt_le a b \<or> dt_le b a"
  by (auto simp: dt_le_def)

lemma datetime_new_range:
  assumes "datetime_new y m d = Inr dt"
  shows "1 \<le> ordinal dt \<and> ordinal dt \<le> MAXORDINAL \<and> microsecond dt = 0"
proof -
  from assms have v: "valid_ymd y m d" and dt: "dt = \<lparr>ordinal = ymd2ord y m d, microsecond = 0\<rparr>"
    by (auto simp: datetime_new_cases split: if_splits)
  show ?thesis using ymd2ord_bounds(1,2)[OF v] by (simp add: dt)
qed

lemma date_of_groups_range:
  assumes "date_of_groups gs = Inr dt"
  shows "1 \<le> ordinal dt \<and> ordinal dt \<le> MAXORDINAL \<and> microsecond dt = 0"
proof -
  from assms obtain y m d where "datetime_new y m d = Inr dt"
    by (auto simp: date_of_groups_def split: list.splits sum.splits)
  then show ?thesis by (rule datetime_new_range)
qed

lemma map_sum_Some_Inr:
  "map_sum id Some x = Inr (Some dt) \<Longrightarrow> x = Inr dt"
  by (cases x) auto

lemma parse_vetting_date_range:
  assumes "parse_vetting_date c = Inr (Some dt)"
  shows "1 \<le> ordinal dt \<and> ordinal dt \<le> MAXORDINAL \<and> microsecond dt = 0"
proof -
  from assms obtain gs where "date_of_groups gs = Inr dt"
    by (auto simp: parse_vetting_date_def split: cell.splits option.splits
        dest: map_sum_Some_Inr)
  then show ?thesis by (rule date_of_groups_range)
qed

lemma extract_safeguarding_date_range:
  assumes "extract_safeguarding_date c = Inr (Some dt)"
  shows "1 \<le> ordinal dt \<and> ordinal dt \<le> MAXORDINAL \<and> microsecond dt = 0"
proof -
  from assms obtain gs where "date_of_groups gs = Inr dt"
    by (auto simp: extract_safeguarding_date_def Let_def
        split: cell.splits if_splits option.splits dest: map_sum_Some_Inr)
  then show ?thesis by (rule date_of_groups_range)
qed

lemma py_max_foldl_mem:
  "foldl (\<lambda>m y. if dt_lt m y then y else m) x xs \<in> set (x # xs)"
  by (induction xs arbitrary: x) auto

lemma py_max_foldl_ge_init:
  "dt_le x (foldl (\<lambda>m y. if dt_lt m y then y else m) x xs)"
proof (induction xs arbitrary: x)
  case Nil
  show ?case by (simp add: dt_le_refl)
next
  case (Cons a xs)
  show ?case
  proof (cases "dt_lt x a")
    case True
    then have "dt_le x a" by (auto simp: dt_lt_def dt_le_def)
    then show ?thesis using True Cons[of a] by (auto intro: dt_le_trans)
  next
    case False
    then show ?thesis using Cons[of x] by simp
  qed
qed

lemma py_max_foldl_upper:
  "d \<in> set (x # xs) \<Longrightarrow> dt_le d (foldl (\<lambda>m y. if dt_lt m y then y else m) x xs)"
proof (induction xs arbitrary: x)
  case Nil
  then show ?case by (simp add: dt_le_refl)
next
  case (Cons a xs)
  let ?x' = "if dt_lt x a then a else x"
  have xa: "dt_le x ?x'" "dt_le a ?x'"
    by (auto simp: dt_lt_def dt_le_def)
  from Cons.prems consider "d = x" | "d = a" | "d \<in> set xs" by auto
  then show ?case
  proof cases
    case 1
    then show ?thesis using xa(1) py_max_foldl_ge_init[of ?x' xs] by (auto intro: dt_le_trans)
  next
    case 2
    then show ?thesis using xa(2) py_max_foldl_ge_init[of ?x' xs] by (auto intro: dt_le_trans)
  next
    case 3
    then show ?thesis using Cons.IH[of ?x'] by simp
  qed
qed

lemma py_max_greatest:
  assumes "py_max ds = Inr latest"
  shows "latest \<in> set ds" and "\<forall>d \<in> set ds. dt_le d latest"
proof -
  from assms obtain x xs where ds: "ds = x # xs"
    and l: "latest = foldl (\<lambda>m y. if dt_lt m y then y else m) x xs"
    by (cases ds) auto
  show "latest \<in> set ds" unfolding ds l by (rule py_max_foldl_mem)
  show "\<forall>d \<in> set ds. dt_le d latest" unfolding ds l using py_max_foldl_upper by blast
qed

lemma py_max_nonempty: "ds \<noteq> [] \<Longrightarrow> \<exists>latest. py_max ds = Inr latest"
  by (cases ds) auto

lemma py_max_set:
  assumes "py_max ds = Inr a" and "py_max ds' = Inr b" and "set ds = set ds'"
  shows "a = b"
proof -
  have "dt_le a b" using py_max_greatest[OF assms(1)] py_max_greatest[OF assms(2)] assms(3) by blast
  moreover have "dt_le b a"
    using py_max_greatest[OF assms(1)] py_max_greatest[OF assms(2)] assms(3) by blast
  ultimately show ?thesis by (rule dt_le_antisym)
qed

lemma collect_dates_set:
  assumes "collect_dates cs idx acc = Inr ds"
  shows "set ds = set acc \<union> {d. \<exists>i \<in> set idx. extract_safeguarding_date (cs ! i) = Inr (Some d)}"
    and "\<forall>i \<in> set idx. i < length cs \<and> (\<exists>v. extract_safeguarding_date (cs ! i) = Inr v)"
  using assms
proof (induction idx arbitrary: acc)
  case Nil
  { case 1 then show ?case by simp }
  { case 2 then show ?case by simp }
next
  case (Cons i idx)
  { case 1
    then show ?case
      using Cons.IH(1)
      by (auto simp: index_def split: if_splits sum.splits option.splits) }
  { case 2
    then show ?case
      using Cons.IH(2)
      by (auto simp: index_def split: if_splits sum.splits option.splits) }
qed

lemma collect_dates_total:
  assumes "\<forall>i \<in> set idx. i < length cs \<and> (\<exists>v. extract_safeguarding_date (cs ! i) = Inr v)"
  shows "\<exists>ds. collect_dates cs idx acc = Inr ds"
  using assms
proof (induction idx arbitrary: acc)
  case Nil
  show ?case by simp
next
  case (Cons i idx)
  then obtain v where v: "i < length cs" "extract_safeguarding_date (cs ! i) = Inr v" by auto
  show ?case using Cons v by (cases v) (auto simp: index_def)
qed

lemma collect_dates_cong:
  assumes "\<forall>i \<in> set idx. i < length cs \<and> i < length cs' \<and> cs ! i = cs' ! i"
  shows "collect_dates cs idx acc = collect_dates cs' idx acc"
  using assms
  by (induction idx arbitrary: acc) (auto simp: index_def split: sum.splits option.splits)

lemma expiry_date_cases:
  "expiry_date completed =
     (if 0 < ordinal completed + 1095 \<and> ordinal completed + 1095 \<le> MAXORDINAL
      then Inr (completed\<lparr>ordinal := ordinal completed + 1095\<rparr>) else Inl OverflowError)"
  by (simp add: expiry_date_def add_days_cases)

lemma all_safeguarding_dates_range:
  assumes "all_safeguarding_dates r = Inr ds" and "d \<in> set ds"
  shows "1 \<le> ordinal d \<and> ordinal d \<le> MAXORDINAL \<and> microsecond d = 0"
proof -
  have "set ds = set [] \<union> {d. \<exists>i \<in> set [5..<26].
           extract_safeguarding_date (iloc r ! i) = Inr (Some d)}"
    using assms(1) unfolding all_safeguarding_dates_def by (rule collect_dates_set(1))
  with assms(2) obtain i where "extract_safeguarding_date (iloc r ! i) = Inr (Some d)"
    by (simp only: list.set Un_empty_left) blast
  then show ?thesis by (rule extract_safeguarding_date_range)
qed






lemma safeguarding_renewal_latest:
  "all_safeguarding_dates r = Inr ds \<Longrightarrow> py_max ds = Inr latest \<Longrightarrow>
   safeguarding_renewal today t90 r = renewal_of today t90 latest"
  by (cases ds) (auto simp: safeguarding_renewal_def)

lemma safeguarding_expired_latest:
  "all_safeguarding_dates r = Inr ds \<Longrightarrow> py_max ds = Inr latest \<Longrightarrow>
   safeguarding_expired today r = expired_of today Safeguarding_Type r latest"
  by (cases ds) (auto simp: safeguarding_expired_def)

lemma same_day_after_midnight:
  assumes "ordinal expiry = ordinal today" and "microsecond expiry = 0"
    and "0 < microsecond today"
  shows "dt_lt expiry today \<and> \<not> dt_le today expiry"
  using assms by (simp add: dt_lt_def dt_le_def)

lemma all_safeguarding_dates_returns_iff:
  "(\<exists>ds. all_safeguarding_dates r = Inr ds) =
   (26 \<le> length (iloc r) \<and>
    (\<forall>i. 5 \<le> i \<and> i < 26 \<longrightarrow> (\<exists>v. extract_safeguarding_date (iloc r ! i) = Inr v)))"
proof
  assume "\<exists>ds. all_safeguarding_dates r = Inr ds"
  then obtain ds where "collect_dates (iloc r) [5..<26] [] = Inr ds"
    by (auto simp: all_safeguarding_dates_def)
  from collect_dates_set(2)[OF this]
  have *: "\<forall>i \<in> {5..<26}. i < length (iloc r) \<and>
            (\<exists>v. extract_safeguarding_date (iloc r ! i) = Inr v)"
    by (simp only: set_upt)
  have "(25::nat) \<in> {5..<26}" by simp
  with * have "25 < length (iloc r)" by blast
  moreover have "\<forall>i. 5 \<le> i \<and> i < 26 \<longrightarrow> (\<exists>v. extract_safeguarding_date (iloc r ! i) = Inr v)"
    using * by (meson atLeastLessThan_iff)
  ultimately show "26 \<le> length (iloc r) \<and>
    (\<forall>i. 5 \<le> i \<and> i < 26 \<longrightarrow> (\<exists>v. extract_safeguarding_date (iloc r ! i) = Inr v))"
    by simp
next
  assume a: "26 \<le> length (iloc r) \<and>
    (\<forall>i. 5 \<le> i \<and> i < 26 \<longrightarrow> (\<exists>v. extract_safeguarding_date (iloc r ! i) = Inr v))"
  have "\<forall>i \<in> set [5..<26]. i < length (iloc r) \<and>
            (\<exists>v. extract_safeguarding_date (iloc r ! i) = Inr v)"
  proof
    fix i assume "i \<in> set [5..<26]"
    then have "5 \<le> i" "i < 26" by (simp_all only: set_upt atLeastLessThan_iff)
    then show "i < length (iloc r) \<and> (\<exists>v. extract_safeguarding_date (iloc r ! i) = Inr v)"
      using a by auto
  qed
  from collect_dates_total[OF this]
  show "\<exists>ds. all_safeguarding_dates r = Inr ds" by (simp only: all_safeguarding_dates_def)
qed

lemma all_safeguarding_dates_columns:
  assumes "26 \<le> length (iloc r)" "26 \<le> length (iloc r')"
    and "\<forall>i. 5 \<le> i \<and> i < 26 \<longrightarrow> iloc r ! i = iloc r' ! i"
  shows "all_safeguarding_dates r = all_safeguarding_dates r'"
  unfolding all_safeguarding_dates_def
proof (rule collect_dates_cong, rule ballI)
  fix i assume "i \<in> set [5..<26]"
  then have "5 \<le> i" "i < 26" by (simp_all only: set_upt atLeastLessThan_iff)
  then show "i < length (iloc r) \<and> i < length (iloc r') \<and> iloc r ! i = iloc r' ! i"
    using assms by auto
qed

lemma parse_vetting_date_example:
  "parse_vetting_date (Text ''15/03/2023'') = Inr (Some \<lparr>ordinal = 738594, microsecond = 0\<rparr>)"
proof -
  have "strip ''15/03/2023'' = ''15'' @ ''/'' @ ''03'' @ ''/'' @ ''2023''"
    by (simp add: strip_def isspace_def)
  moreover have "date_like ''15'' ''03'' ''2023''" by (simp add: date_like_def isdigit_def)
  ultimately have "parse_vetting_date (Text ''15/03/2023'') =
      map_sum id Some (datetime_new (int_of_digits ''2023'') (int_of_digits ''03'')
        (int_of_digits ''15''))"
    by (rule parse_vetting_date_match)
  moreover have "int_of_digits ''2023'' = 2023" "int_of_digits ''03'' = 3" "int_of_digits ''15'' = 15"
    by (simp_all add: int_of_digits_def digit_val_def)
  moreover have "datetime_new 2023 3 15 = Inr \<lparr>ordinal = 738594, microsecond = 0\<rparr>"
    by (simp add: datetime_new_def MINYEAR_def MAXYEAR_def days_in_month_def DAYS_IN_MONTH_def
        ymd2ord_def days_before_year_def days_before_month_def is_leap_def)
  ultimately show ?thesis by simp
qed

lemma expiry_date_example:
  "expiry_date \<lparr>ordinal = 738594, microsecond = 0\<rparr> = Inr \<lparr>ordinal = 739689, microsecond = 0\<rparr>"
  by (simp add: expiry_date_cases MAXORDINAL_def)

lemma all_safeguarding_dates_example:
  "all_safeguarding_dates
     \<lparr>First_Name = ''Ann'', Surname = ''Lee'', Email_Address = ''ann@example.org'',
      Latest_Vetting_Completion_Date = NaN,
      iloc = [NaN, NaN, NaN, NaN, NaN,
              Text ''Being A Scouter 15/03/2023'',
              Text ''Child Safeguarding from 10/01/2020 to 10/01/2020'',
              Text ''First Aid 01/02/2024'',
              NaN, NaN, NaN, NaN, NaN, NaN, NaN, NaN, NaN, NaN, NaN, NaN, NaN, NaN, NaN, NaN,
              NaN, NaN]\<rparr> =
   Inr [\<lparr>ordinal = 738594, microsecond = 0\<rparr>, \<lparr>ordinal = 737434, microsecond = 0\<rparr>]"
  by code_simp

text \<open>
  C1. The claim is that the two date parsers return a date or absence on every string and
  never raise. The code returns absence for a string that does not match its pattern, but
  a string that matches and names no calendar day reaches \<open>datetime(...)\<close> unguarded:
  on \<open>31/02/2024\<close> both parsers raise \<open>ValueError\<close>.
\<close>

theorem date_parsers_raise:
  "parse_vetting_date (Text ''31/02/2024'') = Inl ValueError \<and>
   extract_safeguarding_date (Text ''Safeguarding 31/02/2024'') = Inl ValueError"
  by code_simp

text \<open>
  C3, as stated, fails at the end of the range of \<open>datetime\<close>: \<open>01/01/9997\<close> is parsed, and
  adding 1095 days to it raises \<open>OverflowError\<close>, so no expiry date is computed.
\<close>

theorem expiry_date_overflow_counterexample:
  "parse_vetting_date (Text ''01/01/9997'') = Inr (Some \<lparr>ordinal = 3650965, microsecond = 0\<rparr>) \<and>
   expiry_date \<lparr>ordinal = 3650965, microsecond = 0\<rparr> = Inl OverflowError"
proof -
  have "strip ''01/01/9997'' = ''01'' @ ''/'' @ ''01'' @ ''/'' @ ''9997''"
    by (simp add: strip_def isspace_def)
  moreover have "date_like ''01'' ''01'' ''9997''" by (simp add: date_like_def isdigit_def)
  ultimately have "parse_vetting_date (Text ''01/01/9997'') =
      map_sum id Some (datetime_new (int_of_digits ''9997'') (int_of_digits ''01'')
        (int_of_digits ''01''))"
    by (rule parse_vetting_date_match)
  moreover have "int_of_digits ''9997'' = 9997" "int_of_digits ''01'' = 1"
    by (simp_all add: int_of_digits_def digit_val_def)
  moreover have "datetime_new 9997 1 1 = Inr \<lparr>ordinal = 3650965, microsecond = 0\<rparr>"
    by (simp add: datetime_new_def MINYEAR_def MAXYEAR_def days_in_month_def DAYS_IN_MONTH_def
        ymd2ord_def days_before_year_def days_before_month_def)
  ultimately show ?thesis by (simp add: expiry_date_cases MAXORDINAL_def)
qed

text \<open>
  C3, amended. For every parsed completion date, from the vetting report or the latest of a
  training row, whose day number plus 1095 is at most that of 31/12/9999 (a completion date
  up to 31/12/9996), the expiry date is the completion date plus exactly 1095 days, at the
  same time of day; for a later completion date the addition raises \<open>OverflowError\<close>.
\<close>

theorem expiry_date_plus_1095:
  assumes "parse_vetting_date c = Inr (Some completed) \<or>
           (all_safeguarding_dates r = Inr ds \<and> py_max ds = Inr completed)"
  shows "expiry_date completed =
           (if ordinal completed + 1095 \<le> MAXORDINAL
            then Inr (completed\<lparr>ordinal := ordinal completed + 1095\<rparr>)
            else Inl OverflowError)"
proof -
  have "1 \<le> ordinal completed"
    using assms parse_vetting_date_range[of c completed]
      all_safeguarding_dates_range[of r ds completed] py_max_greatest(1)[of ds completed]
    by blast
  then show ?thesis by (simp add: expiry_date_cases)
qed

theorem expiry_date_plus_1095_witness:
  "parse_vetting_date (Text ''15/03/2023'') = Inr (Some \<lparr>ordinal = 738594, microsecond = 0\<rparr>) \<and>
   expiry_date \<lparr>ordinal = 738594, microsecond = 0\<rparr> = Inr \<lparr>ordinal = 739689, microsecond = 0\<rparr>"
  using expiry_date_plus_1095[of "Text ''15/03/2023''" "\<lparr>ordinal = 738594, microsecond = 0\<rparr>"]
    parse_vetting_date_example
  by (simp add: MAXORDINAL_def)





text \<open>
  C9. For a training row whose columns 5 to 25 are all read and parsed, the dates collected
  are those the columns 5 to 25 yield. When there is none, the row gives no renewal entry
  and no expired item. Otherwise both classifications are computed from one date, the
  greatest of the dates collected, which is the only greatest one: no smaller date has a
  part in the result.
\<close>

theorem latest_safeguarding_date:
  assumes "all_safeguarding_dates r = Inr ds"
  shows
    "(\<forall>d. (d \<in> set ds) =
        (\<exists>i. 5 \<le> i \<and> i < 26 \<and> extract_safeguarding_date (iloc r ! i) = Inr (Some d))) \<and>
     (ds = [] \<longrightarrow>
        safeguarding_renewal today t90 r = Inr None \<and>
        safeguarding_expired today r = Inr None) \<and>
     (ds \<noteq> [] \<longrightarrow>
        (\<exists>latest. latest \<in> set ds \<and> (\<forall>d \<in> set ds. dt_le d latest) \<and>
           (\<forall>l. l \<in> set ds \<and> (\<forall>d \<in> set ds. dt_le d l) \<longrightarrow> l = latest) \<and>
           safeguarding_renewal today t90 r = renewal_of today t90 latest \<and>
           safeguarding_expired today r = expired_of today Safeguarding_Type r latest))"
proof -
  have mem: "\<forall>d. (d \<in> set ds) =
        (\<exists>i. 5 \<le> i \<and> i < 26 \<and> extract_safeguarding_date (iloc r ! i) = Inr (Some d))"
  proof -
    have "set ds = {d. \<exists>i \<in> {5..<26}. extract_safeguarding_date (iloc r ! i) = Inr (Some d)}"
      using collect_dates_set(1)[OF assms[unfolded all_safeguarding_dates_def]]
      by (simp only: set_upt list.set Un_empty_left)
    then show ?thesis by (simp only: mem_Collect_eq Bex_def atLeastLessThan_iff) blast
  qed
  have empty: "ds = [] \<longrightarrow>
        safeguarding_renewal today t90 r = Inr None \<and> safeguarding_expired today r = Inr None"
    using assms by (simp add: safeguarding_renewal_def safeguarding_expired_def)
  have some: "ds \<noteq> [] \<longrightarrow>
        (\<exists>latest. latest \<in> set ds \<and> (\<forall>d \<in> set ds. dt_le d latest) \<and>
           (\<forall>l. l \<in> set ds \<and> (\<forall>d \<in> set ds. dt_le d l) \<longrightarrow> l = latest) \<and>
           safeguarding_renewal today t90 r = renewal_of today t90 latest \<and>
           safeguarding_expired today r = expired_of today Safeguarding_Type r latest)"
  proof
    assume "ds \<noteq> []"
    then obtain latest where l: "py_max ds = Inr latest" using py_max_nonempty by blast
    note g = py_max_greatest[OF l]
    have "\<forall>l. l \<in> set ds \<and> (\<forall>d \<in> set ds. dt_le d l) \<longrightarrow> l = latest"
      using g by (auto intro: dt_le_antisym)
    then show "\<exists>latest. latest \<in> set ds \<and> (\<forall>d \<in> set ds. dt_le d latest) \<and>
           (\<forall>l. l \<in> set ds \<and> (\<forall>d \<in> set ds. dt_le d l) \<longrightarrow> l = latest) \<and>
           safeguarding_renewal today t90 r = renewal_of today t90 latest \<and>
           safeguarding_expired today r = expired_of today Safeguarding_Type r latest"
      using g safeguarding_renewal_latest[OF assms l] safeguarding_expired_latest[OF assms l]
      by blast
  qed
  show ?thesis using mem empty some by blast
qed

theorem latest_safeguarding_date_witness:
  "safeguarding_expired \<lparr>ordinal = 739700, microsecond = 0\<rparr>
     \<lparr>First_Name = ''Ann'', Surname = ''Lee'', Email_Address = ''ann@example.org'',
      Latest_Vetting_Completion_Date = NaN,
      iloc = [NaN, NaN, NaN, NaN, NaN,
              Text ''Being A Scouter 15/03/2023'',
              Text ''Child Safeguarding from 10/01/2020 to 10/01/2020'',
              Text ''First Aid 01/02/2024'',
              NaN, NaN, NaN, NaN, NaN, NaN, NaN, NaN, NaN, NaN, NaN, NaN, NaN, NaN, NaN, NaN,
              NaN, NaN]\<rparr> =
   Inr (Some \<lparr>x_Name = ''Ann Lee'', x_Email = ''ann@example.org'', x_Type = Safeguarding_Type,
              x_Last_Completed = \<lparr>ordinal = 738594, microsecond = 0\<rparr>,
              x_Expiry_Date = \<lparr>ordinal = 739689, microsecond = 0\<rparr>, Days_Expired = 11\<rparr>)"
proof -
  let ?r = "\<lparr>First_Name = ''Ann'', Surname = ''Lee'', Email_Address = ''ann@example.org'',
      Latest_Vetting_Completion_Date = NaN,
      iloc = [NaN, NaN, NaN, NaN, NaN,
              Text ''Being A Scouter 15/03/2023'',
              Text ''Child Safeguarding from 10/01/2020 to 10/01/2020'',
              Text ''First Aid 01/02/2024'',
              NaN, NaN, NaN, NaN, NaN, NaN, NaN, NaN, NaN, NaN, NaN, NaN, NaN, NaN, NaN, NaN,
              NaN, NaN]\<rparr>"
  let ?a = "\<lparr>ordinal = 738594, microsecond = 0\<rparr>"
  let ?b = "\<lparr>ordinal = 737434, microsecond = 0\<rparr>"
  let ?today = "\<lparr>ordinal = 739700, microsecond = 0\<rparr>"
  have ne: "[?a, ?b] \<noteq> []" by simp
  from latest_safeguarding_date[OF all_safeguarding_dates_example, of ?today ?today] ne
  obtain latest where l: "latest \<in> set [?a, ?b]" "\<forall>d \<in> set [?a, ?b]. dt_le d latest"
    "safeguarding_expired ?today ?r = expired_of ?today Safeguarding_Type ?r latest"
    by blast
  have "latest = ?a" using l(1,2) by (auto simp: dt_le_def)
  then show ?thesis
    using l(3) by (simp add: expired_of_def expiry_date_example dt_lt_def delta_days_def
        US_PER_DAY_def name_of_def)
qed

section \<open>Properties of the course parser\<close>

lemma length_split_sep: "length (split_sep c s) = Suc (length (filter (\<lambda>x. x = c) s))"
  by (induction s) (auto split: list.splits)

lemma split_sep_not_Nil: "split_sep c s \<noteq> []"
  using length_split_sep[of c s] by auto

lemma split_sep_two: "(1 < length (split_sep c s)) = (c \<in> set s)"
  by (simp add: length_split_sep filter_empty_conv)

lemma split_sep_first: "split_sep c s ! 0 = takeWhile (\<lambda>x. x \<noteq> c) s"
  by (induction s) (auto simp: split_sep_not_Nil split: list.splits)

lemma split_sep_second:
  "c \<in> set s \<Longrightarrow>
   split_sep c s ! 1 = takeWhile (\<lambda>x. x \<noteq> c) (tl (dropWhile (\<lambda>x. x \<noteq> c) s))"
proof (induction s)
  case Nil
  then show ?case by simp
next
  case (Cons a s)
  show ?case
  proof (cases "a = c")
    case True
    then show ?thesis using split_sep_first[of c s] by simp
  next
    case False
    with Cons.prems have "c \<in> set s" by simp
    from Cons.IH[OF this] False show ?thesis
      by (auto simp: split_sep_not_Nil split: list.splits)
  qed
qed

lemma course_lines_nonempty: "l \<in> set (course_lines raw) \<Longrightarrow> l \<noteq> []"
  by (auto simp: course_lines_def)

lemma parse_course_info_cases:
  "parse_course_info raw =
    (if length raw < 50 then Inr empty_course
     else if 4 \<le> length (course_lines raw) \<and> CHR '':'' \<in> set (course_lines raw ! 2)
               \<and> CHR ''-'' \<in> set (course_lines raw ! 3)
     then Inr \<lparr>title = course_lines raw ! 0, description = course_lines raw ! 1,
               status = strip (split_sep CHR '':'' (course_lines raw ! 2) ! 1),
               location = strip (split_sep CHR ''-'' (course_lines raw ! 3) ! 0),
               date = strip (split_sep CHR ''-'' (course_lines raw ! 3) ! 1),
               bookable = (if 5 < length (course_lines raw) then course_lines raw ! 5 else [])\<rparr>
     else Inl IndexError)"
proof -
  have ne: "4 \<le> length (course_lines raw) \<Longrightarrow> course_lines raw ! 0 \<noteq> []"
  proof -
    assume "4 \<le> length (course_lines raw)"
    then have "0 < length (course_lines raw)" by linarith
    then have "course_lines raw ! 0 \<in> set (course_lines raw)" by (rule nth_mem)
    then show ?thesis by (rule course_lines_nonempty)
  qed
  have pos: "\<And>c s. 0 < length (split_sep c s)" by (simp add: length_split_sep)
  show ?thesis
    using ne
    by (auto simp: parse_course_info_def index_def Let_def split_sep_two[symmetric] pos
        simp del: One_nat_def split: sum.splits)
qed

text \<open>
  C10. A text of fewer than 50 characters gives the record whose six fields are all the
  empty string, whatever the text holds.
\<close>

theorem parse_course_info_short:
  "length raw_text < 50 \<Longrightarrow>
   parse_course_info raw_text =
     Inr \<lparr>title = [], description = [], status = [], location = [], date = [],
          bookable = []\<rparr>"
  by (simp add: parse_course_info_def empty_course_def)

theorem parse_course_info_short_witness:
  "length ''NE-2025-014'' < 50 \<and>
   parse_course_info ''NE-2025-014'' =
     Inr \<lparr>title = [], description = [], status = [], location = [], date = [],
          bookable = []\<rparr>"
  using parse_course_info_short [of "''NE-2025-014''"] by simp

text \<open>
  C2, as stated, fails: \<open>parse_course_info\<close> is not total. On a text of 50 characters
  or more whose third line has no colon, \<open>lines[2].split(':')[1]\<close> raises
  \<open>IndexError\<close>.
\<close>

theorem parse_course_info_total_counterexample:
  "parse_course_info
     (''Child Safeguarding Awareness'' @ [CHR 0x0A] @ ''Online course'' @ [CHR 0x0A] @
      ''Status Open'' @ [CHR 0x0A] @ ''Dublin - 01/02/2025'') = Inl IndexError"
  by (simp add: parse_course_info_def course_lines_def strip_def isspace_def index_def)

text \<open>
  C2, amended. \<open>parse_course_info\<close> returns a record exactly when the text is shorter
  than 50 characters, or has at least four non-empty lines with a colon in the third and
  a hyphen in the fourth; on every other text it raises \<open>IndexError\<close>, and it raises
  nothing else.
\<close>

theorem parse_course_info_returns_iff:
  "((\<exists>c. parse_course_info raw = Inr c) =
      (length raw < 50 \<or>
       (4 \<le> length (course_lines raw) \<and> CHR '':'' \<in> set (course_lines raw ! 2) \<and>
        CHR ''-'' \<in> set (course_lines raw ! 3)))) \<and>
   ((\<exists>c. parse_course_info raw = Inr c) \<or> parse_course_info raw = Inl IndexError)"
  by (simp add: parse_course_info_cases)

theorem parse_course_info_returns_iff_witness:
  "(\<exists>c. parse_course_info
           (''Child Safeguarding Awareness'' @ [CHR 0x0A] @ ''Online course'' @ [CHR 0x0A] @
            ''Status: Open'' @ [CHR 0x0A] @ ''Dublin - 01/02/2025'') = Inr c)"
  using parse_course_info_returns_iff
    [of "''Child Safeguarding Awareness'' @ [CHR 0x0A] @ ''Online course'' @ [CHR 0x0A] @
         ''Status: Open'' @ [CHR 0x0A] @ ''Dublin - 01/02/2025''"]
  by (simp add: course_lines_def strip_def isspace_def)

text \<open>
  C6, as stated, fails on the texts that the length guard stops: a well-formed blob of 45
  characters has the first line \<open>First Aid\<close>, and the title returned is empty.
\<close>

theorem parse_course_info_fields_counterexample:
  "course_lines (''First Aid'' @ [CHR 0x0A] @ ''One day'' @ [CHR 0x0A] @
                 ''Status: Open'' @ [CHR 0x0A] @ ''Dublin - 1 May'') ! 0 = ''First Aid'' \<and>
   parse_course_info (''First Aid'' @ [CHR 0x0A] @ ''One day'' @ [CHR 0x0A] @
                      ''Status: Open'' @ [CHR 0x0A] @ ''Dublin - 1 May'') =
     Inr \<lparr>title = [], description = [], status = [], location = [], date = [],
          bookable = []\<rparr>"
  by (simp add: parse_course_info_def empty_course_def course_lines_def strip_def isspace_def)

text \<open>
  C6, amended. For a blob of at least 50 characters with at least four non-empty lines, a
  colon in the third and a hyphen in the fourth: the title is line 0, the description
  line 1, the status the stripped text of line 2 between its first colon and the next,
  the location the stripped text of line 3 before its first hyphen, the date the stripped
  text of line 3 between its first hyphen and the next, and bookable is line 5 when there
  are more than five lines and empty otherwise. The lines are the non-empty stripped
  lines of the blob.
\<close>

theorem parse_course_info_fields:
  assumes "50 \<le> length raw"
    and "4 \<le> length (course_lines raw)"
    and "CHR '':'' \<in> set (course_lines raw ! 2)"
    and "CHR ''-'' \<in> set (course_lines raw ! 3)"
  shows "parse_course_info raw =
     Inr \<lparr>title = course_lines raw ! 0,
          description = course_lines raw ! 1,
          status = strip (takeWhile (\<lambda>x. x \<noteq> CHR '':'')
                     (tl (dropWhile (\<lambda>x. x \<noteq> CHR '':'') (course_lines raw ! 2)))),
          location = strip (takeWhile (\<lambda>x. x \<noteq> CHR ''-'') (course_lines raw ! 3)),
          date = strip (takeWhile (\<lambda>x. x \<noteq> CHR ''-'')
                   (tl (dropWhile (\<lambda>x. x \<noteq> CHR ''-'') (course_lines raw ! 3)))),
          bookable = (if 5 < length (course_lines raw) then course_lines raw ! 5 else [])\<rparr>"
  using assms
  by (simp add: parse_course_info_cases split_sep_first split_sep_second
      del: One_nat_def)

theorem parse_course_info_fields_witness:
  "parse_course_info
     (''  Child Safeguarding Awareness '' @ [CHR 0x0A, CHR 0x0A] @ ''Online course'' @
      [CHR 0x0A] @ ''Status: Open : x'' @ [CHR 0x0A] @ ''Dublin - 01/02/2025 - 02/02/2025'' @
      [CHR 0x0A] @ ''Places: 3'' @ [CHR 0x0A] @ ''Book now'') =
   Inr \<lparr>title = ''Child Safeguarding Awareness'', description = ''Online course'',
        status = ''Open'', location = ''Dublin'', date = ''01/02/2025'',
        bookable = ''Book now''\<rparr>"
  using parse_course_info_fields
    [of "''  Child Safeguarding Awareness '' @ [CHR 0x0A, CHR 0x0A] @ ''Online course'' @
      [CHR 0x0A] @ ''Status: Open : x'' @ [CHR 0x0A] @ ''Dublin - 01/02/2025 - 02/02/2025'' @
      [CHR 0x0A] @ ''Places: 3'' @ [CHR 0x0A] @ ''Book now''"]
  by (simp add: course_lines_def strip_def isspace_def)

end
